theory Spec2Isabelle
  imports Main
begin

section \<open>JSON values and the text codec of the runtime\<close>

text \<open>
  The portal keeps all of its data as JSON text in the browser's key-value storage,
  written by \<open>JSON.stringify\<close> and read by \<open>JSON.parse\<close>. This section is those
  two functions of the runtime, on the values the portal handles: \<open>null\<close>, the
  booleans, strings, arrays and objects, and the integers, which the runtime writes
  in plain decimal digits (up to \<open>10^21\<close>; the portal itself stores no number).
  A string is a list of 8-bit characters, the code units below 256. An object is the
  list of its members in property order. A number with a fraction or an exponent is
  floating point, and a text that has one, or that escapes a character beyond the
  8-bit alphabet, is outside this fragment: the parser below answers \<open>None\<close> on it as
  it does on a text that is not JSON at all.
\<close>

datatype json =
    JNull
  | JBool bool
  | JNum int
  | JStr string
  | JArr "json list"
  | JObj "(string \<times> json) list"

subsection \<open>\<open>JSON.stringify\<close>\<close>

text \<open>The digit for a value below 16, in lower case.\<close>

definition digit_char :: "nat \<Rightarrow> char" where
  "digit_char d =
     (if d = 0 then CHR ''0'' else if d = 1 then CHR ''1'' else if d = 2 then CHR ''2''
      else if d = 3 then CHR ''3'' else if d = 4 then CHR ''4'' else if d = 5 then CHR ''5''
      else if d = 6 then CHR ''6'' else if d = 7 then CHR ''7'' else if d = 8 then CHR ''8''
      else if d = 9 then CHR ''9'' else if d = 10 then CHR ''a'' else if d = 11 then CHR ''b''
      else if d = 12 then CHR ''c'' else if d = 13 then CHR ''d'' else if d = 14 then CHR ''e''
      else CHR ''f'')"

text \<open>
  \<open>QuoteJSONString\<close>: the quote, the backslash and the control characters are
  escaped, the five control characters with a short form by that form and the others
  as \<open>\u00xx\<close> in lower-case hexadecimal; every other character stands for itself.
\<close>

definition escape_char :: "char \<Rightarrow> string" where
  "escape_char c =
     (if c = CHR 0x08 then [CHR 0x5C, CHR ''b'']
      else if c = CHR 0x09 then [CHR 0x5C, CHR ''t'']
      else if c = CHR 0x0A then [CHR 0x5C, CHR ''n'']
      else if c = CHR 0x0C then [CHR 0x5C, CHR ''f'']
      else if c = CHR 0x0D then [CHR 0x5C, CHR ''r'']
      else if c = CHR 0x22 then [CHR 0x5C, CHR 0x22]
      else if c = CHR 0x5C then [CHR 0x5C, CHR 0x5C]
      else if (of_char c :: nat) < 0x20 then
        [CHR 0x5C, CHR ''u'', CHR ''0'', CHR ''0'',
         digit_char (of_char c div 16), digit_char (of_char c mod 16)]
      else [c])"

definition quote :: "string \<Rightarrow> string" where
  "quote s = CHR 0x22 # concat (map escape_char s) @ [CHR 0x22]"

function digits :: "nat \<Rightarrow> string" where
  "digits n = (if n < 10 then [digit_char n] else digits (n div 10) @ [digit_char (n mod 10)])"
  by pat_completeness auto
termination
  by (relation "measure id") auto

declare digits.simps [simp del]

definition show_int :: "int \<Rightarrow> string" where
  "show_int i = (if i < 0 then CHR ''-'' # digits (nat (- i)) else digits (nat i))"

fun join :: "string \<Rightarrow> string list \<Rightarrow> string" where
  "join sep [] = []"
| "join sep [x] = x"
| "join sep (x # y # ys) = x @ sep @ join sep (y # ys)"

text \<open>
  \<open>SerializeJSONProperty\<close> with its two pieces of state, the \<open>gap\<close> (empty for
  \<open>JSON.stringify(value)\<close>, two spaces for \<open>JSON.stringify(value, null, 2)\<close>) and the
  current indentation. An empty array or object is \<open>[]\<close> or \<open>{}\<close>; with an empty gap
  the parts are joined by commas, otherwise each part starts a line of its own, indented
  by one more gap, and the closing bracket goes back to the outer indentation. A colon
  is followed by a space exactly when the gap is not empty.
\<close>

fun stringify_val :: "string \<Rightarrow> string \<Rightarrow> json \<Rightarrow> string" where
  "stringify_val gap ind JNull = ''null''"
| "stringify_val gap ind (JBool b) = (if b then ''true'' else ''false'')"
| "stringify_val gap ind (JNum i) = show_int i"
| "stringify_val gap ind (JStr s) = quote s"
| "stringify_val gap ind (JArr xs) =
     (if xs = [] then ''[]''
      else if gap = [] then
        ''['' @ join '','' (map (stringify_val gap (ind @ gap)) xs) @ '']''
      else
        ''['' @ [CHR 0x0A] @ (ind @ gap)
          @ join ('','' @ [CHR 0x0A] @ (ind @ gap)) (map (stringify_val gap (ind @ gap)) xs)
          @ [CHR 0x0A] @ ind @ '']'')"
| "stringify_val gap ind (JObj kvs) =
     (if kvs = [] then ''{}''
      else if gap = [] then
        ''{'' @ join '',''
           (map (\<lambda>kv. quote (fst kv) @ '':'' @ stringify_val gap (ind @ gap) (snd kv)) kvs)
          @ ''}''
      else
        ''{'' @ [CHR 0x0A] @ (ind @ gap)
          @ join ('','' @ [CHR 0x0A] @ (ind @ gap))
              (map (\<lambda>kv. quote (fst kv) @ '': '' @ stringify_val gap (ind @ gap) (snd kv)) kvs)
          @ [CHR 0x0A] @ ind @ ''}'')"

definition JSON_stringify :: "json \<Rightarrow> string" where
  "JSON_stringify v = stringify_val [] [] v"


subsection \<open>\<open>JSON.parse\<close>\<close>

definition is_ws :: "char \<Rightarrow> bool" where
  "is_ws c = (c = CHR 0x20 \<or> c = CHR 0x09 \<or> c = CHR 0x0A \<or> c = CHR 0x0D)"

definition skip_ws :: "string \<Rightarrow> string" where
  "skip_ws s = dropWhile is_ws s"

definition is_digit :: "char \<Rightarrow> bool" where
  "is_digit c = (48 \<le> (of_char c :: nat) \<and> (of_char c :: nat) \<le> 57)"

definition digit_val :: "char \<Rightarrow> nat" where
  "digit_val c = of_char c - 48"

definition hex_val :: "char \<Rightarrow> nat option" where
  "hex_val c =
     (let n = (of_char c :: nat)
      in if 48 \<le> n \<and> n \<le> 57 then Some (n - 48)
         else if 97 \<le> n \<and> n \<le> 102 then Some (n - 87)
         else if 65 \<le> n \<and> n \<le> 70 then Some (n - 55)
         else None)"

definition hex4 :: "char \<Rightarrow> char \<Rightarrow> char \<Rightarrow> char \<Rightarrow> nat option" where
  "hex4 a b c d =
     (case (hex_val a, hex_val b, hex_val c, hex_val d) of
        (Some x, Some y, Some z, Some w) \<Rightarrow> Some (((x * 16 + y) * 16 + z) * 16 + w)
      | _ \<Rightarrow> None)"

definition unescape :: "char \<Rightarrow> char option" where
  "unescape e =
     (if e = CHR 0x22 then Some (CHR 0x22)
      else if e = CHR 0x5C then Some (CHR 0x5C)
      else if e = CHR ''/'' then Some (CHR ''/'')
      else if e = CHR ''b'' then Some (CHR 0x08)
      else if e = CHR ''f'' then Some (CHR 0x0C)
      else if e = CHR ''n'' then Some (CHR 0x0A)
      else if e = CHR ''r'' then Some (CHR 0x0D)
      else if e = CHR ''t'' then Some (CHR 0x09)
      else None)"

text \<open>
  The characters of a string literal, after its opening quote, up to the closing one.
  A raw control character ends the parse with an error, as does an unknown escape, and
  an escape of a character beyond the 8-bit alphabet.
\<close>

fun parse_chars :: "string \<Rightarrow> (string \<times> string) option" where
  "parse_chars [] = None"
| "parse_chars (c # cs) =
     (if c = CHR 0x22 then Some ([], cs)
      else if c = CHR 0x5C then
        (case cs of
           [] \<Rightarrow> None
         | e # r \<Rightarrow>
             if e = CHR ''u'' then
               (case r of
                  h1 # h2 # h3 # h4 # r' \<Rightarrow>
                    (case hex4 h1 h2 h3 h4 of
                       None \<Rightarrow> None
                     | Some n \<Rightarrow>
                         if n < 256 then
                           (case parse_chars r' of
                              None \<Rightarrow> None
                            | Some (str, t) \<Rightarrow> Some (char_of n # str, t))
                         else None)
                | _ \<Rightarrow> None)
             else
               (case unescape e of
                  None \<Rightarrow> None
                | Some d \<Rightarrow>
                    (case parse_chars r of
                       None \<Rightarrow> None
                     | Some (str, t) \<Rightarrow> Some (d # str, t))))
      else if (of_char c :: nat) < 0x20 then None
      else
        (case parse_chars cs of
           None \<Rightarrow> None
         | Some (str, t) \<Rightarrow> Some (c # str, t)))"

definition nat_of_digits :: "string \<Rightarrow> nat" where
  "nat_of_digits ds = foldl (\<lambda>a d. 10 * a + digit_val d) 0 ds"

text \<open>
  The integer part of a number: a single \<open>0\<close>, or a non-zero digit followed by
  digits. A fraction or an exponent after it is not read, so a text that has one is
  not parsed at all.
\<close>

definition parse_nat :: "string \<Rightarrow> (nat \<times> string) option" where
  "parse_nat s =
     (case s of
        [] \<Rightarrow> None
      | c # cs \<Rightarrow>
          if c = CHR ''0'' then Some (0, cs)
          else if is_digit c then Some (nat_of_digits (takeWhile is_digit s), dropWhile is_digit s)
          else None)"

definition parse_number :: "string \<Rightarrow> (json \<times> string) option" where
  "parse_number s =
     (case s of
        [] \<Rightarrow> None
      | c # cs \<Rightarrow>
          if c = CHR ''-'' then
            (case parse_nat cs of None \<Rightarrow> None | Some (n, r) \<Rightarrow> Some (JNum (- int n), r))
          else
            (case parse_nat s of None \<Rightarrow> None | Some (n, r) \<Rightarrow> Some (JNum (int n), r)))"

fun strip_prefix :: "string \<Rightarrow> string \<Rightarrow> string option" where
  "strip_prefix [] s = Some s"
| "strip_prefix (p # ps) [] = None"
| "strip_prefix (p # ps) (c # cs) = (if p = c then strip_prefix ps cs else None)"

text \<open>
  The own properties of an object as the runtime keeps them: a later member with a
  key already present replaces the value and keeps the place of the first, and the
  keys that are array indices (\<open>0\<close>, or digits without a leading zero, below
  \<open>2^32 - 1\<close>) come first, in ascending order, before the others in the order of
  their creation.
\<close>

fun put :: "string \<Rightarrow> json \<Rightarrow> (string \<times> json) list \<Rightarrow> (string \<times> json) list" where
  "put k v [] = [(k, v)]"
| "put k v (p # ps) = (if fst p = k then (k, v) # ps else p # put k v ps)"

definition is_index :: "string \<Rightarrow> bool" where
  "is_index k =
     (k = ''0'' \<or>
      (k \<noteq> [] \<and> list_all is_digit k \<and> hd k \<noteq> CHR ''0'' \<and> nat_of_digits k < 4294967295))"

definition own_properties :: "(string \<times> json) list \<Rightarrow> (string \<times> json) list" where
  "own_properties kvs =
     (let ps = foldl (\<lambda>acc kv. put (fst kv) (snd kv) acc) [] kvs
      in sort_key (\<lambda>kv. nat_of_digits (fst kv)) (filter (\<lambda>kv. is_index (fst kv)) ps)
         @ filter (\<lambda>kv. \<not> is_index (fst kv)) ps)"

text \<open>
  The recursive-descent parser. The first argument bounds the nesting and the number
  of elements still to read; \<open>JSON_parse\<close> below starts it with the length of the
  text, and no text needs more (\<open>parse_value_length\<close>).
\<close>

fun parse_value :: "nat \<Rightarrow> string \<Rightarrow> (json \<times> string) option"
  and parse_elems :: "nat \<Rightarrow> string \<Rightarrow> (json list \<times> string) option"
  and parse_members :: "nat \<Rightarrow> string \<Rightarrow> ((string \<times> json) list \<times> string) option"
where
  "parse_value 0 s = None"
| "parse_value (Suc n) s =
     (case skip_ws s of
        [] \<Rightarrow> None
      | c # cs \<Rightarrow>
          if c = CHR ''['' then
            (case skip_ws cs of
               [] \<Rightarrow> None
             | d # ds \<Rightarrow>
                 if d = CHR '']'' then Some (JArr [], ds)
                 else
                   (case parse_elems n cs of
                      None \<Rightarrow> None
                    | Some (xs, r) \<Rightarrow> Some (JArr xs, r)))
          else if c = CHR ''{'' then
            (case skip_ws cs of
               [] \<Rightarrow> None
             | d # ds \<Rightarrow>
                 if d = CHR ''}'' then Some (JObj [], ds)
                 else
                   (case parse_members n cs of
                      None \<Rightarrow> None
                    | Some (kvs, r) \<Rightarrow> Some (JObj (own_properties kvs), r)))
          else if c = CHR 0x22 then
            (case parse_chars cs of
               None \<Rightarrow> None
             | Some (str, r) \<Rightarrow> Some (JStr str, r))
          else
            (case strip_prefix ''null'' (c # cs) of
               Some r \<Rightarrow> Some (JNull, r)
             | None \<Rightarrow>
                 (case strip_prefix ''true'' (c # cs) of
                    Some r \<Rightarrow> Some (JBool True, r)
                  | None \<Rightarrow>
                      (case strip_prefix ''false'' (c # cs) of
                         Some r \<Rightarrow> Some (JBool False, r)
                       | None \<Rightarrow> parse_number (c # cs)))))"
| "parse_elems 0 s = None"
| "parse_elems (Suc n) s =
     (case parse_value n s of
        None \<Rightarrow> None
      | Some (v, r) \<Rightarrow>
          (case skip_ws r of
             [] \<Rightarrow> None
           | c # cs \<Rightarrow>
               if c = CHR '','' then
                 (case parse_elems n cs of
                    None \<Rightarrow> None
                  | Some (vs, t) \<Rightarrow> Some (v # vs, t))
               else if c = CHR '']'' then Some ([v], cs)
               else None))"
| "parse_members 0 s = None"
| "parse_members (Suc n) s =
     (case skip_ws s of
        [] \<Rightarrow> None
      | q # qs \<Rightarrow>
          if q = CHR 0x22 then
            (case parse_chars qs of
               None \<Rightarrow> None
             | Some (k, r) \<Rightarrow>
                 (case skip_ws r of
                    [] \<Rightarrow> None
                  | c # cs \<Rightarrow>
                      if c = CHR '':'' then
                        (case parse_value n cs of
                           None \<Rightarrow> None
                         | Some (v, r') \<Rightarrow>
                             (case skip_ws r' of
                                [] \<Rightarrow> None
                              | d # ds \<Rightarrow>
                                  if d = CHR '','' then
                                    (case parse_members n ds of
                                       None \<Rightarrow> None
                                     | Some (kvs, t) \<Rightarrow> Some ((k, v) # kvs, t))
                                  else if d = CHR ''}'' then Some ([(k, v)], ds)
                                  else None))
                      else None))
          else None)"

text \<open>
  \<open>JSON.parse(text)\<close>: one value, with nothing but white space after it. \<open>None\<close>
  is the \<open>SyntaxError\<close> of the runtime.
\<close>

definition JSON_parse :: "string \<Rightarrow> json option" where
  "JSON_parse s =
     (case parse_value (length s) s of
        None \<Rightarrow> None
      | Some (v, r) \<Rightarrow> if skip_ws r = [] then Some v else None)"

text \<open>What may stand after a number for its digits to be read back as they were
  written: the end of the text, or a character that is not a digit.\<close>

definition follow :: "string \<Rightarrow> bool" where
  "follow r = (case r of [] \<Rightarrow> True | c # _ \<Rightarrow> \<not> is_digit c)"

text \<open>
  A value as the runtime holds it: the members of every object are its own properties,
  in property order.
\<close>

fun valid_json :: "json \<Rightarrow> bool" where
  "valid_json (JArr xs) = list_all valid_json xs"
| "valid_json (JObj kvs) =
     (own_properties kvs = kvs \<and> list_all (\<lambda>kv. valid_json (snd kv)) kvs)"
| "valid_json v = True"

text \<open>A bound on what the parser's first argument must be to read a value back.\<close>

fun cost :: "json \<Rightarrow> nat" where
  "cost (JArr xs) = Suc (sum_list (map (\<lambda>x. Suc (cost x)) xs))"
| "cost (JObj kvs) = Suc (sum_list (map (\<lambda>kv. Suc (cost (snd kv))) kvs))"
| "cost v = Suc 0"

text \<open>
  \<open>settled f s x r\<close>: the parser \<open>f\<close> reads \<open>x\<close> from \<open>s\<close> and leaves \<open>r\<close>, whatever
  its first argument is from the number of characters read on.
\<close>

definition settled :: "(nat \<Rightarrow> string \<Rightarrow> ('a \<times> string) option) \<Rightarrow> string \<Rightarrow> 'a \<Rightarrow> string \<Rightarrow> bool" where
  "settled f s x r =
     (length r < length s \<and> (\<forall>m. length s - length r \<le> m \<longrightarrow> f m s = Some (x, r)))"

section \<open>The portal\<close>

subsection \<open>Storage adapter\<close>

text \<open>
  \<open>localStorage\<close> maps keys to texts; \<open>getItem\<close> of a key that was never set is
  \<open>null\<close>, here \<open>None\<close>. Storage is taken to have room for what is written.
\<close>

type_synonym storage = "string \<rightharpoonup> string"

datatype error = SyntaxError | TypeError | ReadError

definition saveToStorage :: "string \<Rightarrow> json \<Rightarrow> storage \<Rightarrow> storage" where
  "saveToStorage key v st = st(key \<mapsto> JSON_stringify v)"

text \<open>
  The body of the \<open>try\<close> in \<open>loadFromStorage\<close>: \<open>raw ? JSON.parse(raw) : fallback\<close>.
  \<open>null\<close> and the empty text are falsy; \<open>JSON.parse\<close> throws on a text it cannot read.
\<close>

definition loadFromStorage_try :: "string \<Rightarrow> json \<Rightarrow> storage \<Rightarrow> error + json" where
  "loadFromStorage_try key fallback st =
     (case st key of
        None \<Rightarrow> Inr fallback
      | Some raw \<Rightarrow>
          if raw = [] then Inr fallback
          else (case JSON_parse raw of None \<Rightarrow> Inl SyntaxError | Some v \<Rightarrow> Inr v))"

definition loadFromStorage :: "string \<Rightarrow> json \<Rightarrow> storage \<Rightarrow> json" where
  "loadFromStorage key fallback st =
     (case loadFromStorage_try key fallback st of Inl e \<Rightarrow> fallback | Inr v \<Rightarrow> v)"

subsection \<open>Reading values\<close>

text \<open>
  \<open>v.k\<close> for the property names the portal reads (\<open>id\<close>, \<open>messages\<close>, \<open>title\<close>, ...),
  none of which a string, a number, a boolean or an array has: \<open>None\<close> is
  \<open>undefined\<close>, and reading a property of \<open>null\<close> throws.
\<close>

definition get_prop :: "json \<Rightarrow> string \<Rightarrow> error + json option" where
  "get_prop v k =
     (case v of JNull \<Rightarrow> Inl TypeError | JObj kvs \<Rightarrow> Inr (map_of kvs k) | _ \<Rightarrow> Inr None)"

text \<open>Truthiness, as \<open>!v\<close> and \<open>v || d\<close> test it.\<close>

definition truthy :: "json \<Rightarrow> bool" where
  "truthy v =
     (case v of JNull \<Rightarrow> False | JBool b \<Rightarrow> b | JNum i \<Rightarrow> i \<noteq> 0 | JStr s \<Rightarrow> s \<noteq> [] | _ \<Rightarrow> True)"

subsection \<open>Identifiers and files\<close>

text \<open>
  \<open>uid\<close> joins its prefix and a random fragment, \<open>Math.random().toString(36).slice(2, 9)\<close>;
  the fragment and the time of the clock are inputs of the handlers that use them.
\<close>

definition uid :: "string \<Rightarrow> string \<Rightarrow> string" where
  "uid rnd prefix = prefix @ ''_'' @ rnd"

text \<open>
  A file the user selected: its name, its size in bytes, and what \<open>readAsDataURL\<close>
  gives for it, a data URL, or nothing when the read fails.
\<close>

record File =
  file_name :: string
  file_size :: nat
  file_dataURL :: "string option"

definition readFileAsBase64 :: "File \<Rightarrow> error + string" where
  "readFileAsBase64 f = (case file_dataURL f of None \<Rightarrow> Inl ReadError | Some d \<Rightarrow> Inr d)"

text \<open>\<open>`${Math.round(size / 1024)} KB`\<close>; \<open>Math.round\<close> rounds a half up.\<close>

definition size_KB :: "nat \<Rightarrow> string" where
  "size_KB n = digits ((n + 512) div 1024) @ '' KB''"

subsection \<open>The contact form\<close>

record contact =
  name :: string
  email :: string
  subject :: string
  message :: string
  file' :: "File option"
  sending :: bool
  status :: "(bool \<times> string) option"

definition Contact :: contact where
  "Contact = \<lparr>name = [], email = [], subject = [], message = [], file' = None,
     sending = False, status = None\<rparr>"

text \<open>
  \<open>Contact.handleSubmit\<close>: the new state of the form, and the message handed to
  \<open>onSend\<close>, if one was. A failed read of the attachment is caught: nothing is sent.
\<close>

definition handleSubmit :: "string \<Rightarrow> string \<Rightarrow> contact \<Rightarrow> contact \<times> json option" where
  "handleSubmit rnd now c =
     (case
        (case file' c of
           None \<Rightarrow> Inr JNull
         | Some f \<Rightarrow>
             (case readFileAsBase64 f of
                Inl e \<Rightarrow> Inl e
              | Inr d \<Rightarrow>
                  Inr (JObj [(''name'', JStr (file_name f)), (''size'', JStr (size_KB (file_size f))),
                     (''data'', JStr d)])))
      of
        Inl e \<Rightarrow> (c\<lparr>sending := False, status := Some (False, ''Failed to send message.'')\<rparr>, None)
      | Inr fileData \<Rightarrow>
          (c\<lparr>name := [], email := [], subject := [], message := [], file' := None,
             sending := False, status := Some (True, ''Message sent. The rep will contact you.'')\<rparr>,
           Some (JObj
             [(''id'', JStr (uid rnd ''msg'')),
              (''name'', JStr (if name c = [] then ''Anonymous'' else name c)),
              (''email'', JStr (email c)),
              (''subject'', JStr (if subject c = [] then ''General'' else subject c)),
              (''message'', JStr (message c)),
              (''file'', fileData),
              (''createdAt'', JStr now),
              (''status'', JStr ''unread'')])))"

subsection \<open>The application state and its handlers\<close>

text \<open>
  The three collections are whatever \<open>loadFromStorage\<close> gave at start, arrays unless
  the storage held something else; an operation of arrays on another value throws.
\<close>

record app =
  route :: string
  messages :: json
  resources :: json
  infos :: json

definition App :: "storage \<Rightarrow> app" where
  "App st = \<lparr>route = ''home'',
     messages = loadFromStorage ''sr_messages'' (JArr []) st,
     resources = loadFromStorage ''sr_resources'' (JArr []) st,
     infos = loadFromStorage ''sr_infos'' (JArr []) st\<rparr>"

text \<open>The three effects, each run after a render in which its collection is new.\<close>

definition effect_messages :: "app \<Rightarrow> storage \<Rightarrow> storage" where
  "effect_messages a st = saveToStorage ''sr_messages'' (messages a) st"

definition effect_resources :: "app \<Rightarrow> storage \<Rightarrow> storage" where
  "effect_resources a st = saveToStorage ''sr_resources'' (resources a) st"

definition effect_infos :: "app \<Rightarrow> storage \<Rightarrow> storage" where
  "effect_infos a st = saveToStorage ''sr_infos'' (infos a) st"

text \<open>After the first render all three run, in the order of the source.\<close>

definition effects :: "app \<Rightarrow> storage \<Rightarrow> storage" where
  "effects a st = effect_infos a (effect_resources a (effect_messages a st))"

text \<open>
  The storage holds the three collections as the effects wrote them: so it is whenever
  a handler runs, since the effects of a render have run by then.
\<close>

definition synced :: "app \<Rightarrow> storage \<Rightarrow> bool" where
  "synced a st =
     (st ''sr_messages'' = Some (JSON_stringify (messages a)) \<and>
      st ''sr_resources'' = Some (JSON_stringify (resources a)) \<and>
      st ''sr_infos'' = Some (JSON_stringify (infos a)))"

text \<open>
  A handler is taken together with the render that follows it: one that sets a
  collection is followed by the effect of that collection, one that returns early or
  sets nothing by no effect. What is thrown while the new collection is computed
  leaves the state and the storage as they were.

  \<open>[...prev, x]\<close>: the elements of an array, or the characters of a string.
\<close>

definition spread_append :: "json \<Rightarrow> json \<Rightarrow> error + json" where
  "spread_append prev x =
     (case prev of
        JArr xs \<Rightarrow> Inr (JArr (xs @ [x]))
      | JStr s \<Rightarrow> Inr (JArr (map (\<lambda>c. JStr [c]) s @ [x]))
      | _ \<Rightarrow> Inl TypeError)"

definition handleSendMessage :: "json \<Rightarrow> app \<times> storage \<Rightarrow> error + app \<times> storage" where
  "handleSendMessage msg s =
     (case s of (a, st) \<Rightarrow>
        (case spread_append (messages a) msg of
           Inl e \<Rightarrow> Inl e
         | Inr ms \<Rightarrow> Inr (a\<lparr>messages := ms\<rparr>, effect_messages (a\<lparr>messages := ms\<rparr>) st)))"

text \<open>
  \<open>prev.filter(m => m.id !== id)\<close> for an identifier \<open>id\<close> that is a string, as \<open>uid\<close>
  makes them: an entry is kept unless its \<open>id\<close> is that very string.
\<close>

definition has_id :: "string \<Rightarrow> json \<Rightarrow> bool" where
  "has_id i m = (get_prop m ''id'' = Inr (Some (JStr i)))"

fun filter_id :: "string \<Rightarrow> json list \<Rightarrow> error + json list" where
  "filter_id i [] = Inr []"
| "filter_id i (m # ms) =
     (case get_prop m ''id'' of
        Inl e \<Rightarrow> Inl e
      | Inr v \<Rightarrow>
          (case filter_id i ms of
             Inl e \<Rightarrow> Inl e
           | Inr r \<Rightarrow> Inr (if v \<noteq> Some (JStr i) then m # r else r)))"

definition Array_filter_id :: "string \<Rightarrow> json \<Rightarrow> error + json" where
  "Array_filter_id i prev =
     (case prev of
        JArr ms \<Rightarrow> (case filter_id i ms of Inl e \<Rightarrow> Inl e | Inr r \<Rightarrow> Inr (JArr r))
      | _ \<Rightarrow> Inl TypeError)"

text \<open>The delete handlers; the first argument is the answer to \<open>confirm\<close>.\<close>

definition handleDeleteMessage :: "bool \<Rightarrow> string \<Rightarrow> app \<times> storage \<Rightarrow> error + app \<times> storage" where
  "handleDeleteMessage confirmed i s =
     (case s of (a, st) \<Rightarrow>
        if \<not> confirmed then Inr (a, st)
        else
          (case Array_filter_id i (messages a) of
             Inl e \<Rightarrow> Inl e
           | Inr ms \<Rightarrow> Inr (a\<lparr>messages := ms\<rparr>, effect_messages (a\<lparr>messages := ms\<rparr>) st)))"

definition handleDeleteResource :: "bool \<Rightarrow> string \<Rightarrow> app \<times> storage \<Rightarrow> error + app \<times> storage" where
  "handleDeleteResource confirmed i s =
     (case s of (a, st) \<Rightarrow>
        if \<not> confirmed then Inr (a, st)
        else
          (case Array_filter_id i (resources a) of
             Inl e \<Rightarrow> Inl e
           | Inr rs \<Rightarrow> Inr (a\<lparr>resources := rs\<rparr>, effect_resources (a\<lparr>resources := rs\<rparr>) st)))"

text \<open>\<open>handlePostInfo({ type, payload })\<close>: both tests are made, one after the other.\<close>

definition handlePostInfo :: "string \<Rightarrow> json \<Rightarrow> app \<times> storage \<Rightarrow> error + app \<times> storage" where
  "handlePostInfo type payload s =
     (case s of (a, st) \<Rightarrow>
        (case
           (if type = ''resource'' then
              (case spread_append (resources a) payload of
                 Inl e \<Rightarrow> Inl e
               | Inr rs \<Rightarrow> Inr (a\<lparr>resources := rs\<rparr>, effect_resources (a\<lparr>resources := rs\<rparr>) st))
            else Inr (a, st))
         of
           Inl e \<Rightarrow> Inl e
         | Inr (a', st') \<Rightarrow>
             if type = ''info'' then
               (case spread_append (infos a') payload of
                  Inl e \<Rightarrow> Inl e
                | Inr is \<Rightarrow> Inr (a'\<lparr>infos := is\<rparr>, effect_infos (a'\<lparr>infos := is\<rparr>) st'))
             else Inr (a', st')))"

subsection \<open>The admin login\<close>

definition DEFAULT_ADMIN_PASSWORD :: string where
  "DEFAULT_ADMIN_PASSWORD = ''Unbrella01''"

record admin =
  loggedIn :: json
  pw :: string
  newTitle :: string
  newBody :: string
  uploadFile :: "File option"
  uploading :: bool
  admin_status :: "(bool \<times> string) option"

text \<open>
  The component as it is mounted, and after its effect, which sets \<open>loggedIn\<close> to
  what is stored under \<open>sr_admin_logged\<close> (\<open>false\<close> when nothing readable is).
\<close>

definition Admin :: admin where
  "Admin = \<lparr>loggedIn = JBool False, pw = [], newTitle = [], newBody = [], uploadFile = None,
     uploading = False, admin_status = None\<rparr>"

definition Admin_effect :: "storage \<Rightarrow> admin \<Rightarrow> admin" where
  "Admin_effect st ad = ad\<lparr>loggedIn := loadFromStorage ''sr_admin_logged'' (JBool False) st\<rparr>"

text \<open>\<open>if (!loggedIn)\<close> the login form is what the component shows, else the panel.\<close>

definition shows_panel :: "admin \<Rightarrow> bool" where
  "shows_panel ad = truthy (loggedIn ad)"

text \<open>\<open>login\<close>: the new state, the new storage, and the alert, if one is shown.\<close>

definition login :: "admin \<times> storage \<Rightarrow> admin \<times> storage \<times> string option" where
  "login s =
     (case s of (ad, st) \<Rightarrow>
        if pw ad = DEFAULT_ADMIN_PASSWORD then
          (ad\<lparr>loggedIn := JBool True, pw := []\<rparr>,
           saveToStorage ''sr_admin_logged'' (JBool True) st, None)
        else
          (ad, st,
           Some ''Incorrect password. Change DEFAULT_ADMIN_PASSWORD in code for production.''))"

definition logout :: "admin \<times> storage \<Rightarrow> admin \<times> storage" where
  "logout s =
     (case s of (ad, st) \<Rightarrow>
        (ad\<lparr>loggedIn := JBool False\<rparr>, saveToStorage ''sr_admin_logged'' (JBool False) st))"

subsection \<open>Export and import\<close>






subsection \<open>The views\<close>

text \<open>
  A view gets its collection by reference, and \<open>reverse\<close> works in place, so the arrays
  live in a heap here: \<open>cells\<close> gives the elements of the array at a reference, and the
  references below \<open>next\<close> are the ones in use.
\<close>

type_synonym ref = nat

record heap =
  cells :: "ref \<Rightarrow> json list"
  "next" :: ref

definition Array_slice :: "ref \<Rightarrow> heap \<Rightarrow> ref \<times> heap" where
  "Array_slice r h = (next h, h\<lparr>cells := (cells h)(next h := cells h r), next := Suc (next h)\<rparr>)"

definition Array_reverse :: "ref \<Rightarrow> heap \<Rightarrow> ref \<times> heap" where
  "Array_reverse r h = (r, h\<lparr>cells := (cells h)(r := rev (cells h r))\<rparr>)"

text \<open>\<open>xs.map(f)\<close> for an \<open>f\<close> that builds an element of the page from an entry, or throws.\<close>

fun map_throw :: "(json \<Rightarrow> error + 'a) \<Rightarrow> json list \<Rightarrow> error + 'a list" where
  "map_throw f [] = Inr []"
| "map_throw f (x # xs) =
     (case f x of
        Inl e \<Rightarrow> Inl e
      | Inr y \<Rightarrow> (case map_throw f xs of Inl e \<Rightarrow> Inl e | Inr ys \<Rightarrow> Inr (y # ys)))"

definition Array_map :: "(json \<Rightarrow> error + 'a) \<Rightarrow> ref \<Rightarrow> heap \<Rightarrow> error + 'a list" where
  "Array_map f r h = map_throw f (cells h r)"

datatype 'a view = Placeholder string | Items "'a list"

text \<open>
  \<open>Home\<close> and \<open>FilesPage\<close>, with the element built for one entry as a parameter
  (\<open>article\<close>, \<open>li\<close>) and the collection as the reference \<open>r\<close>: they only read the
  heap.
\<close>

definition Home :: "(json \<Rightarrow> error + 'a) \<Rightarrow> ref \<Rightarrow> heap \<Rightarrow> error + 'a view" where
  "Home article r h =
     (if length (cells h r) = 0 then Inr (Placeholder ''No announcements yet.'')
      else (case Array_map article r h of Inl e \<Rightarrow> Inl e | Inr ys \<Rightarrow> Inr (Items ys)))"

definition FilesPage :: "(json \<Rightarrow> error + 'a) \<Rightarrow> ref \<Rightarrow> heap \<Rightarrow> error + 'a view" where
  "FilesPage li r h =
     (if length (cells h r) = 0 then Inr (Placeholder ''No files uploaded yet.'')
      else (case Array_map li r h of Inl e \<Rightarrow> Inl e | Inr ys \<Rightarrow> Inr (Items ys)))"

text \<open>
  The two lists of the admin panel, \<open>xs.slice().reverse().map(li)\<close>, with the heap they
  leave; only the list of messages has a placeholder.
\<close>

definition Admin_messages :: "(json \<Rightarrow> error + 'a) \<Rightarrow> ref \<Rightarrow> heap \<Rightarrow> (error + 'a view) \<times> heap" where
  "Admin_messages li r h =
     (if length (cells h r) = 0 then (Inr (Placeholder ''No messages yet.''), h)
      else
        (case Array_slice r h of (c, h1) \<Rightarrow>
           (case Array_reverse c h1 of (c', h2) \<Rightarrow>
              ((case Array_map li c' h2 of Inl e \<Rightarrow> Inl e | Inr ys \<Rightarrow> Inr (Items ys)), h2))))"

definition Admin_resources :: "(json \<Rightarrow> error + 'a) \<Rightarrow> ref \<Rightarrow> heap \<Rightarrow> (error + 'a view) \<times> heap" where
  "Admin_resources li r h =
     (case Array_slice r h of (c, h1) \<Rightarrow>
        (case Array_reverse c h1 of (c', h2) \<Rightarrow>
           ((case Array_map li c' h2 of Inl e \<Rightarrow> Inl e | Inr ys \<Rightarrow> Inr (Items ys)), h2)))"

subsection \<open>A small portal\<close>

text \<open>One message, one resource and one announcement, for the examples below.\<close>

definition msg1 :: json where
  "msg1 = JObj
     [(''id'', JStr ''msg_k3x9q0z''), (''name'', JStr ''Anonymous''), (''email'', JStr []),
      (''subject'', JStr ''General''), (''message'', JStr ''printer broken''), (''file'', JNull),
      (''createdAt'', JStr ''2024-05-01T10:00:00.000Z''), (''status'', JStr ''unread'')]"

definition res1 :: json where
  "res1 = JObj
     [(''id'', JStr ''res_8fj2k1a''), (''name'', JStr ''timetable.pdf''), (''size'', JStr ''12 KB''),
      (''data'', JStr ''data:application/pdf;base64,JVBERi0=''),
      (''createdAt'', JStr ''2024-05-02T09:30:00.000Z'')]"

definition info1 :: json where
  "info1 = JObj
     [(''id'', JStr ''info_b7w1c2d''), (''title'', JStr ''Welcome''),
      (''body'', JStr ''Office hours are on Monday.''),
      (''createdAt'', JStr ''2024-05-03T08:00:00.000Z'')]"

definition portal :: app where
  "portal = \<lparr>route = ''admin'', messages = JArr [msg1], resources = JArr [res1],
     infos = JArr [info1]\<rparr>"

definition portal_storage :: storage where
  "portal_storage = effects portal Map.empty"


text \<open>A heap with one array, at the reference \<open>0\<close>.\<close>

definition heap1 :: heap where
  "heap1 = \<lparr>cells = (\<lambda>r. [])(0 := [info1, res1, msg1]), next = 1\<rparr>"

section \<open>The codec reads back what it wrote\<close>

subsection \<open>Numbers\<close>

lemma lt16_cases:
  "d < 16 \<Longrightarrow> d = 0 \<or> d = 1 \<or> d = 2 \<or> d = 3 \<or> d = 4 \<or> d = 5 \<or> d = 6 \<or> d = 7 \<or> d = 8
     \<or> d = 9 \<or> d = 10 \<or> d = 11 \<or> d = 12 \<or> d = 13 \<or> d = 14 \<or> d = (15::nat)"
  by arith

lemma hex_val_digit_char: "d < 16 \<Longrightarrow> hex_val (digit_char d) = Some d"
  by (drule lt16_cases) (auto simp: hex_val_def digit_char_def)

lemma of_char_digit_char: "d < 10 \<Longrightarrow> (of_char (digit_char d) :: nat) = 48 + d"
proof -
  assume "d < 10"
  then have "d < 16" by simp
  from lt16_cases [OF this] \<open>d < 10\<close> show ?thesis
    by (auto simp: digit_char_def)
qed

lemma is_digit_digit_char: "d < 10 \<Longrightarrow> is_digit (digit_char d)"
  by (simp add: is_digit_def of_char_digit_char)

lemma digit_val_digit_char: "d < 10 \<Longrightarrow> digit_val (digit_char d) = d"
  by (simp add: digit_val_def of_char_digit_char)

lemma digit_char_zero: "d < 10 \<Longrightarrow> digit_char d = CHR ''0'' \<longleftrightarrow> d = 0"
proof -
  assume "d < 10"
  then have "(of_char (digit_char d) :: nat) = 48 + d" by (rule of_char_digit_char)
  then show ?thesis by (auto simp: digit_char_def)
qed

lemma digits_all: "list_all is_digit (digits n)"
  by (induction n rule: digits.induct) (subst digits.simps, simp add: is_digit_digit_char)

lemma digits_not_Nil: "digits n \<noteq> []"
  by (subst digits.simps) simp

lemma hd_digits_zero: "hd (digits n) = CHR ''0'' \<longleftrightarrow> n = 0"
proof (induction n rule: digits.induct)
  case (1 n)
  show ?case
  proof (cases "n < 10")
    case True
    then show ?thesis by (subst digits.simps) (simp add: digit_char_zero)
  next
    case False
    then have "n div 10 \<noteq> 0" by simp
    with 1 False have "hd (digits (n div 10)) \<noteq> CHR ''0''" by simp
    with False show ?thesis
      by (subst digits.simps) (simp add: digits_not_Nil)
  qed
qed

lemma nat_of_digits_snoc: "nat_of_digits (ds @ [d]) = 10 * nat_of_digits ds + digit_val d"
  by (simp add: nat_of_digits_def)

lemma nat_of_digits_digits: "nat_of_digits (digits n) = n"
proof (induction n rule: digits.induct)
  case (1 n)
  show ?case
  proof (cases "n < 10")
    case True
    then show ?thesis
      by (subst digits.simps) (simp add: nat_of_digits_def digit_val_digit_char)
  next
    case False
    with 1 have "nat_of_digits (digits (n div 10)) = n div 10" by simp
    with False show ?thesis
      by (subst digits.simps) (simp add: nat_of_digits_snoc digit_val_digit_char)
  qed
qed

lemma takeWhile_digits: "follow r \<Longrightarrow> takeWhile is_digit (digits n @ r) = digits n"
  using digits_all [of n]
  by (cases r) (auto simp: follow_def takeWhile_append list_all_iff takeWhile_eq_all_conv [THEN iffD2])

lemma dropWhile_digits: "follow r \<Longrightarrow> dropWhile is_digit (digits n @ r) = r"
  using digits_all [of n]
  by (cases r) (auto simp: follow_def dropWhile_append list_all_iff)

lemma parse_nat_digits: "follow r \<Longrightarrow> parse_nat (digits n @ r) = Some (n, r)"
proof -
  assume f: "follow r"
  obtain c cs where d: "digits n = c # cs"
    using digits_not_Nil [of n] by (cases "digits n") auto
  have c: "is_digit c" using digits_all [of n] d by simp
  show ?thesis
  proof (cases "n = 0")
    case True
    then show ?thesis by (subst digits.simps) (simp add: parse_nat_def digit_char_def)
  next
    case False
    then have "c \<noteq> CHR ''0''" using hd_digits_zero [of n] d by simp
    moreover have "takeWhile is_digit (c # cs @ r) = c # cs" "dropWhile is_digit (c # cs @ r) = r"
      using takeWhile_digits [OF f, of n] dropWhile_digits [OF f, of n] d by simp_all
    ultimately show ?thesis
      using c nat_of_digits_digits [of n] d by (simp add: parse_nat_def del: takeWhile.simps dropWhile.simps)
  qed
qed

lemma digits_hd_not_minus: "digits n = c # cs \<Longrightarrow> c \<noteq> CHR ''-''"
  using digits_all [of n] by (auto simp: is_digit_def)

lemma parse_number_show_int: "follow r \<Longrightarrow> parse_number (show_int i @ r) = Some (JNum i, r)"
proof -
  assume f: "follow r"
  show ?thesis
  proof (cases "i < 0")
    case True
    then show ?thesis
      by (simp add: parse_number_def show_int_def parse_nat_digits [OF f])
  next
    case False
    obtain c cs where d: "digits (nat i) = c # cs"
      using digits_not_Nil [of "nat i"] by (cases "digits (nat i)") auto
    have "parse_nat (c # cs @ r) = Some (nat i, r)"
      using parse_nat_digits [OF f, of "nat i"] d by simp
    with False d digits_hd_not_minus [OF d] show ?thesis
      by (simp add: parse_number_def show_int_def)
  qed
qed

subsection \<open>Strings\<close>

lemma hex4_control:
  "n < 32 \<Longrightarrow> hex4 (CHR ''0'') (CHR ''0'') (digit_char (n div 16)) (digit_char (n mod 16)) = Some n"
proof -
  assume "n < 32"
  then have "n div 16 < 16" by simp
  moreover have "n mod 16 < 16" by simp
  moreover have "hex_val (CHR ''0'') = Some 0" by (simp add: hex_val_def)
  ultimately show ?thesis
    by (simp add: hex4_def hex_val_digit_char)
qed

lemma parse_chars_escape_char:
  "parse_chars (escape_char c @ t) =
     (case parse_chars t of None \<Rightarrow> None | Some (str, r) \<Rightarrow> Some (c # str, r))"
proof -
  consider (special) "c = CHR 0x08 \<or> c = CHR 0x09 \<or> c = CHR 0x0A \<or> c = CHR 0x0C \<or> c = CHR 0x0D
      \<or> c = CHR 0x22 \<or> c = CHR 0x5C"
    | (control) "\<not> (c = CHR 0x08 \<or> c = CHR 0x09 \<or> c = CHR 0x0A \<or> c = CHR 0x0C \<or> c = CHR 0x0D
      \<or> c = CHR 0x22 \<or> c = CHR 0x5C)" "(of_char c :: nat) < 0x20"
    | (plain) "\<not> (c = CHR 0x08 \<or> c = CHR 0x09 \<or> c = CHR 0x0A \<or> c = CHR 0x0C \<or> c = CHR 0x0D
      \<or> c = CHR 0x22 \<or> c = CHR 0x5C)" "\<not> (of_char c :: nat) < 0x20"
    by blast
  then show ?thesis
  proof cases
    case special
    then show ?thesis
      by (auto simp: escape_char_def unescape_def split: option.splits)
  next
    case control
    have "char_of (of_char c :: nat) = c" by simp
    with control hex4_control [of "of_char c"] show ?thesis
      by (simp add: escape_char_def split: option.splits)
  next
    case plain
    then show ?thesis
      by (simp add: escape_char_def split: option.splits)
  qed
qed

lemma parse_chars_escaped:
  "parse_chars (concat (map escape_char s) @ CHR 0x22 # r) = Some (s, r)"
  by (induction s) (simp_all add: parse_chars_escape_char)

lemma parse_chars_quote: "parse_chars (tl (quote s) @ r) = Some (s, r)"
  by (simp add: quote_def parse_chars_escaped)

lemma quote_Cons: "quote s = CHR 0x22 # tl (quote s)"
  by (simp add: quote_def)

subsection \<open>Values\<close>

lemma is_ws_not_digit: "is_ws c \<Longrightarrow> \<not> is_digit c"
  by (auto simp: is_ws_def is_digit_def)

lemma skip_ws_append: "list_all is_ws w \<Longrightarrow> skip_ws (w @ s) = skip_ws s"
  by (induction w) (simp_all add: skip_ws_def)

lemma skip_ws_Cons: "\<not> is_ws c \<Longrightarrow> skip_ws (c # s) = c # s"
  by (simp add: skip_ws_def)

lemma skip_ws_ws_Cons: "list_all is_ws w \<Longrightarrow> \<not> is_ws c \<Longrightarrow> skip_ws (w @ c # s) = c # s"
  by (simp add: skip_ws_append skip_ws_Cons)

lemma follow_ws_Cons: "list_all is_ws w \<Longrightarrow> \<not> is_digit c \<Longrightarrow> follow (w @ c # s)"
  by (cases w) (simp_all add: follow_def is_ws_not_digit)

lemma join_Cons: "join sep (x # xs) = (if xs = [] then x else x @ sep @ join sep xs)"
  by (cases xs) simp_all

lemma parse_elems_join:
  assumes ws: "list_all is_ws sepw" "list_all is_ws close"
  shows "xs \<noteq> [] \<Longrightarrow> list_all is_ws w \<Longrightarrow> sum_list (map (\<lambda>x. Suc (cost x)) xs) \<le> n \<Longrightarrow>
     (\<And>x w r n. x \<in> set xs \<Longrightarrow> list_all is_ws w \<Longrightarrow> follow r \<Longrightarrow> cost x \<le> n \<Longrightarrow>
        parse_value n (w @ f x @ r) = Some (x, r)) \<Longrightarrow>
     parse_elems n (w @ join (CHR '','' # sepw) (map f xs) @ close @ CHR '']'' # rest) = Some (xs, rest)"
proof (induction xs arbitrary: w n)
  case Nil
  then show ?case by simp
next
  case (Cons x xs)
  from Cons.prems(3) obtain m where n: "n = Suc m" and m: "cost x + sum_list (map (\<lambda>x. Suc (cost x)) xs) \<le> m"
    by (cases n) auto
  have nws: "\<not> is_ws (CHR '','')" "\<not> is_ws (CHR '']'')" "\<not> is_digit (CHR '','')" "\<not> is_digit (CHR '']'')"
    by (simp_all add: is_ws_def is_digit_def)
  show ?case
  proof (cases "xs = []")
    case True
    let ?r = "close @ CHR '']'' # rest"
    have "parse_value m (w @ f x @ ?r) = Some (x, ?r)"
      using Cons.prems(2) m by (intro Cons.prems(4)) (simp_all add: follow_ws_Cons ws nws)
    moreover have "skip_ws ?r = CHR '']'' # rest"
      by (simp add: skip_ws_ws_Cons ws nws)
    ultimately show ?thesis
      using True n by simp
  next
    case False
    let ?t = "sepw @ join (CHR '','' # sepw) (map f xs) @ close @ CHR '']'' # rest"
    let ?r = "CHR '','' # ?t"
    have "parse_value m (w @ f x @ ?r) = Some (x, ?r)"
      using Cons.prems(2) m by (intro Cons.prems(4)) (simp_all add: follow_def nws)
    moreover have "skip_ws ?r = ?r"
      by (simp add: skip_ws_Cons nws)
    moreover have "parse_elems m ?t = Some (xs, rest)"
      using False m ws by (intro Cons.IH Cons.prems(4)) simp_all
    ultimately show ?thesis
      using False n by (simp add: join_Cons)
  qed
qed

lemma parse_members_join:
  assumes ws: "list_all is_ws sepw" "list_all is_ws close" "list_all is_ws colonw"
  shows "kvs \<noteq> [] \<Longrightarrow> list_all is_ws w \<Longrightarrow>
     sum_list (map (\<lambda>kv. Suc (cost (snd kv))) kvs) \<le> n \<Longrightarrow>
     (\<And>kv w r n. kv \<in> set kvs \<Longrightarrow> list_all is_ws w \<Longrightarrow> follow r \<Longrightarrow> cost (snd kv) \<le> n \<Longrightarrow>
        parse_value n (w @ f (snd kv) @ r) = Some (snd kv, r)) \<Longrightarrow>
     parse_members n
       (w @ join (CHR '','' # sepw) (map (\<lambda>kv. quote (fst kv) @ CHR '':'' # colonw @ f (snd kv)) kvs)
          @ close @ CHR ''}'' # rest) = Some (kvs, rest)"
proof (induction kvs arbitrary: w n)
  case Nil
  then show ?case by simp
next
  case (Cons kv kvs)
  obtain k v where kv: "kv = (k, v)" by (cases kv)
  from Cons.prems(3) obtain m where n: "n = Suc m"
    and m: "cost v + sum_list (map (\<lambda>kv. Suc (cost (snd kv))) kvs) \<le> m"
    by (cases n) (auto simp: kv)
  have nws: "\<not> is_ws (CHR '','')" "\<not> is_ws (CHR ''}'')" "\<not> is_digit (CHR '','')"
    "\<not> is_digit (CHR ''}'')" "\<not> is_ws (CHR 0x22)" "\<not> is_ws (CHR '':'')"
    by (simp_all add: is_ws_def is_digit_def)
  have key: "skip_ws (w @ quote k @ s) = CHR 0x22 # tl (quote k) @ s" for s
    using Cons.prems(2) by (subst quote_Cons) (simp add: skip_ws_ws_Cons nws)
  have val: "follow r \<Longrightarrow> parse_value m (colonw @ f v @ r) = Some (v, r)" for r
    using Cons.prems(4) [of kv colonw r m] m ws by (simp add: kv)
  show ?case
  proof (cases "kvs = []")
    case True
    let ?r = "close @ CHR ''}'' # rest"
    have "parse_value m (colonw @ f v @ ?r) = Some (v, ?r)"
      by (rule val) (simp add: follow_ws_Cons ws nws)
    moreover have "skip_ws ?r = CHR ''}'' # rest"
      by (simp add: skip_ws_ws_Cons ws nws)
    ultimately show ?thesis
      using True n key [of "CHR '':'' # colonw @ f v @ ?r"]
      by (simp add: kv parse_chars_quote skip_ws_Cons nws)
  next
    case False
    let ?t = "sepw @ join (CHR '','' # sepw)
        (map (\<lambda>kv. quote (fst kv) @ CHR '':'' # colonw @ f (snd kv)) kvs) @ close @ CHR ''}'' # rest"
    let ?r = "CHR '','' # ?t"
    have "parse_value m (colonw @ f v @ ?r) = Some (v, ?r)"
      by (rule val) (simp add: follow_def nws)
    moreover have "skip_ws ?r = ?r"
      by (simp add: skip_ws_Cons nws)
    moreover have "parse_members m ?t = Some (kvs, rest)"
      using False m ws by (intro Cons.IH Cons.prems(4)) simp_all
    ultimately show ?thesis
      using False n key [of "CHR '':'' # colonw @ f v @ ?r"]
      by (simp add: kv join_Cons parse_chars_quote skip_ws_Cons nws)
  qed
qed

lemma show_int_head: "\<exists>c cs. show_int i = c # cs \<and> (c = CHR ''-'' \<or> is_digit c)"
proof -
  obtain c cs where d: "digits (nat \<bar>i\<bar>) = c # cs"
    using digits_not_Nil [of "nat \<bar>i\<bar>"] by (cases "digits (nat \<bar>i\<bar>)") auto
  moreover have "is_digit c" using digits_all [of "nat \<bar>i\<bar>"] d by simp
  ultimately show ?thesis by (cases "i < 0") (auto simp: show_int_def)
qed

lemma stringify_val_head:
  "\<exists>c cs. stringify_val gap ind v = c # cs \<and> \<not> is_ws c \<and> c \<noteq> CHR '']'' \<and> c \<noteq> CHR ''}''"
proof (cases v)
  case (JNum i)
  from show_int_head [of i] obtain c cs where "show_int i = c # cs" "c = CHR ''-'' \<or> is_digit c"
    by blast
  with JNum show ?thesis by (auto simp: is_ws_def is_digit_def)
qed (auto simp: is_ws_def quote_def)

lemma join_stringify_head:
  assumes "xs \<noteq> []"
  shows "\<exists>c cs. join sep (map (stringify_val gap ind) xs) @ t = c # cs \<and> \<not> is_ws c \<and> c \<noteq> CHR '']''"
proof -
  from assms obtain x ys where xs: "xs = x # ys" by (cases xs) auto
  from stringify_val_head [of gap ind x] obtain c cs
    where "stringify_val gap ind x = c # cs" "\<not> is_ws c" "c \<noteq> CHR '']''" by blast
  then show ?thesis by (simp add: xs join_Cons)
qed

lemma join_members_head:
  assumes "kvs \<noteq> []"
  shows "\<exists>cs. join sep (map (\<lambda>kv. quote (fst kv) @ g kv) kvs) @ t = CHR 0x22 # cs"
proof -
  from assms obtain x ys where "kvs = x # ys" by (cases kvs) auto
  then show ?thesis by (simp add: join_Cons quote_def)
qed

lemma parse_value_stringify_val:
  assumes gap: "list_all is_ws gap"
  shows "valid_json v \<Longrightarrow> list_all is_ws ind \<Longrightarrow> list_all is_ws w \<Longrightarrow> follow r \<Longrightarrow> cost v \<le> n \<Longrightarrow>
    parse_value n (w @ stringify_val gap ind v @ r) = Some (v, r)"
proof (induction v arbitrary: ind w r n)
  case JNull
  then obtain m where "n = Suc m" by (cases n) auto
  moreover have "\<not> is_ws (CHR ''n'')" by (simp add: is_ws_def)
  ultimately show ?case
    using JNull.prems(3) by (simp add: skip_ws_ws_Cons)
next
  case (JBool b)
  then obtain m where "n = Suc m" by (cases n) auto
  moreover have "\<not> is_ws (CHR ''t'')" "\<not> is_ws (CHR ''f'')" by (simp_all add: is_ws_def)
  ultimately show ?case
    using JBool.prems(3) by (cases b) (simp_all add: skip_ws_ws_Cons)
next
  case (JNum i)
  then obtain m where n: "n = Suc m" by (cases n) auto
  from show_int_head [of i] obtain c cs where c: "show_int i = c # cs" "c = CHR ''-'' \<or> is_digit c"
    by blast
  then have "\<not> is_ws c" "c \<noteq> CHR ''[''" "c \<noteq> CHR ''{''" "c \<noteq> CHR 0x22"
    "c \<noteq> CHR ''n''" "c \<noteq> CHR ''t''" "c \<noteq> CHR ''f''"
    by (auto simp: is_ws_def is_digit_def)
  moreover have "parse_number (c # cs @ r) = Some (JNum i, r)"
    using parse_number_show_int [OF JNum.prems(4), of i] c by simp
  ultimately show ?case
    using JNum.prems(3) n c by (simp add: skip_ws_ws_Cons)
next
  case (JStr s)
  then obtain m where n: "n = Suc m" by (cases n) auto
  have "\<not> is_ws (CHR 0x22)" by (simp add: is_ws_def)
  then have "skip_ws (w @ quote s @ r) = CHR 0x22 # tl (quote s) @ r"
    using JStr.prems(3) by (subst quote_Cons) (simp add: skip_ws_ws_Cons)
  then show ?case
    by (simp add: n parse_chars_quote)
next
  case (JArr xs)
  then obtain m where n: "n = Suc m" and m: "sum_list (map (\<lambda>x. Suc (cost x)) xs) \<le> m"
    by (cases n) auto
  have nws: "\<not> is_ws (CHR ''['')" "\<not> is_ws (CHR '']'')"
    by (simp_all add: is_ws_def)
  show ?case
  proof (cases "xs = []")
    case True
    then show ?thesis
      using JArr.prems(3) by (simp add: n skip_ws_ws_Cons skip_ws_Cons nws)
  next
    case False
    define sepw where "sepw = (if gap = [] then [] else CHR 0x0A # ind @ gap)"
    define close where "close = (if gap = [] then [] else CHR 0x0A # ind)"
    define t where "t = sepw @ join (CHR '','' # sepw) (map (stringify_val gap (ind @ gap)) xs)
       @ close @ CHR '']'' # r"
    have "is_ws (CHR 0x0A)" by (simp add: is_ws_def)
    then have ws: "list_all is_ws sepw" "list_all is_ws close"
      using gap JArr.prems(2) by (simp_all add: sepw_def close_def)
    have shape: "stringify_val gap ind (JArr xs) @ r = CHR ''['' # t"
      using False by (simp add: t_def sepw_def close_def)
    have "parse_elems m t = Some (xs, r)"
      unfolding t_def
    proof (rule parse_elems_join [OF ws False ws(1) m])
      fix x w' r' n'
      assume "x \<in> set xs" "list_all is_ws w'" "follow r'" "cost x \<le> n'"
      moreover have "valid_json x" "list_all is_ws (ind @ gap)"
        using JArr.prems(1,2) gap \<open>x \<in> set xs\<close> by (auto simp: list_all_iff)
      ultimately show "parse_value n' (w' @ stringify_val gap (ind @ gap) x @ r') = Some (x, r')"
        by (intro JArr.IH)
    qed
    moreover obtain c cs where "skip_ws t = c # cs" "c \<noteq> CHR '']''"
      using join_stringify_head [OF False, of "CHR '','' # sepw" gap "ind @ gap" "close @ CHR '']'' # r"] ws
      by (auto simp: t_def skip_ws_append skip_ws_Cons)
    ultimately show ?thesis
      using JArr.prems(3) unfolding shape by (simp add: n skip_ws_ws_Cons nws)
  qed
next
  case (JObj kvs)
  then obtain m where n: "n = Suc m" and m: "sum_list (map (\<lambda>kv. Suc (cost (snd kv))) kvs) \<le> m"
    by (cases n) auto
  have nws: "\<not> is_ws (CHR ''{'')" "\<not> is_ws (CHR ''}'')" "\<not> is_ws (CHR 0x22)"
    by (simp_all add: is_ws_def)
  show ?case
  proof (cases "kvs = []")
    case True
    then show ?thesis
      using JObj.prems(3) by (simp add: n skip_ws_ws_Cons skip_ws_Cons nws)
  next
    case False
    define sepw where "sepw = (if gap = [] then [] else CHR 0x0A # ind @ gap)"
    define close where "close = (if gap = [] then [] else CHR 0x0A # ind)"
    define colonw where "colonw = (if gap = [] then [] else '' '')"
    define t where "t = sepw @ join (CHR '','' # sepw)
       (map (\<lambda>kv. quote (fst kv) @ CHR '':'' # colonw @ stringify_val gap (ind @ gap) (snd kv)) kvs)
       @ close @ CHR ''}'' # r"
    have "is_ws (CHR 0x0A)" "is_ws (CHR '' '')" by (simp_all add: is_ws_def)
    then have ws: "list_all is_ws sepw" "list_all is_ws close" "list_all is_ws colonw"
      using gap JObj.prems(2) by (simp_all add: sepw_def close_def colonw_def)
    have shape: "stringify_val gap ind (JObj kvs) @ r = CHR ''{'' # t"
      using False by (simp add: t_def sepw_def close_def colonw_def)
    have "parse_members m t = Some (kvs, r)"
      unfolding t_def
    proof (rule parse_members_join [OF ws False ws(1) m])
      fix kv w' r' n'
      assume "kv \<in> set kvs" "list_all is_ws w'" "follow r'" "cost (snd kv) \<le> n'"
      moreover have "valid_json (snd kv)" "list_all is_ws (ind @ gap)" "snd kv \<in> Basic_BNFs.snds kv"
        using JObj.prems(1,2) gap \<open>kv \<in> set kvs\<close> by (auto simp: list_all_iff snds.simps)
      ultimately show "parse_value n' (w' @ stringify_val gap (ind @ gap) (snd kv) @ r') = Some (snd kv, r')"
        by (intro JObj.IH)
    qed
    moreover obtain cs where "skip_ws t = CHR 0x22 # cs"
      using join_members_head [OF False, of "CHR '','' # sepw"
          "\<lambda>kv. CHR '':'' # colonw @ stringify_val gap (ind @ gap) (snd kv)" "close @ CHR ''}'' # r"] ws
      by (auto simp: t_def skip_ws_append skip_ws_Cons nws)
    moreover have "own_properties kvs = kvs"
      using JObj.prems(1) by simp
    ultimately show ?thesis
      using JObj.prems(3) unfolding shape by (simp add: n skip_ws_ws_Cons nws)
  qed
qed

lemma sum_cost_le_join:
  "(\<And>x. x \<in> set xs \<Longrightarrow> c x \<le> length (f x)) \<Longrightarrow>
     sum_list (map (\<lambda>x. Suc (c x)) xs) \<le> Suc (length (join (a # sep) (map f xs)))"
proof (induction xs)
  case Nil
  then show ?case by simp
next
  case (Cons x xs)
  have "c x \<le> length (f x)" by (rule Cons.prems) simp
  moreover have "sum_list (map (\<lambda>x. Suc (c x)) xs) \<le> Suc (length (join (a # sep) (map f xs)))"
    by (rule Cons.IH) (simp add: Cons.prems)
  ultimately show ?case by (simp add: join_Cons)
qed

lemma cost_le_length: "cost v \<le> length (stringify_val gap ind v)"
proof (induction v arbitrary: ind)
  case JNull
  show ?case by simp
next
  case (JBool b)
  show ?case by simp
next
  case (JNum i)
  from show_int_head [of i] show ?case by auto
next
  case (JStr s)
  show ?case by (simp add: quote_def)
next
  case (JArr xs)
  have "sum_list (map (\<lambda>x. Suc (cost x)) xs)
      \<le> Suc (length (join (CHR '','' # sep) (map (stringify_val gap (ind @ gap)) xs)))" for sep
    by (rule sum_cost_le_join) (rule JArr.IH)
  from this [of "[]"] this [of "CHR 0x0A # ind @ gap"] show ?case
    by (cases "gap = []") simp_all
next
  case (JObj kvs)
  have "sum_list (map (\<lambda>kv. Suc (cost (snd kv))) kvs)
      \<le> Suc (length (join (CHR '','' # sep)
          (map (\<lambda>kv. quote (fst kv) @ colon @ stringify_val gap (ind @ gap) (snd kv)) kvs)))" for sep colon
  proof (rule sum_cost_le_join)
    fix kv assume "kv \<in> set kvs"
    then have "cost (snd kv) \<le> length (stringify_val gap (ind @ gap) (snd kv))"
      by (intro JObj.IH) (simp_all add: snds.simps)
    then show "cost (snd kv) \<le> length (quote (fst kv) @ colon @ stringify_val gap (ind @ gap) (snd kv))"
      by simp
  qed
  from this [of "[]" "'':''"] this [of "CHR 0x0A # ind @ gap" "'': ''"] show ?case
    by (cases "gap = []") simp_all
qed

lemma JSON_parse_stringify_val:
  assumes "valid_json v" "list_all is_ws gap"
  shows "JSON_parse (stringify_val gap [] v) = Some v"
proof -
  have "parse_value (length (stringify_val gap [] v)) ([] @ stringify_val gap [] v @ []) = Some (v, [])"
    using assms by (intro parse_value_stringify_val cost_le_length) (simp_all add: follow_def)
  then show ?thesis
    by (simp add: JSON_parse_def skip_ws_def)
qed

lemma JSON_parse_stringify: "valid_json v \<Longrightarrow> JSON_parse (JSON_stringify v) = Some v"
  by (simp add: JSON_stringify_def JSON_parse_stringify_val)


lemma JSON_stringify_not_Nil: "JSON_stringify v \<noteq> []"
  using stringify_val_head [of "[]" "[]" v] by (auto simp: JSON_stringify_def)

section \<open>What the parser gives is a value\<close>

lemma set_put: "set (put k v ps) \<subseteq> insert (k, v) (set ps)"
  by (induction ps) auto

lemma keys_put: "fst ` set (put k v ps) = insert k (fst ` set ps)"
  by (induction ps) auto

lemma distinct_put: "distinct (map fst ps) \<Longrightarrow> distinct (map fst (put k v ps))"
  by (induction ps) (auto simp: keys_put)

lemma put_new: "k \<notin> fst ` set ps \<Longrightarrow> put k v ps = ps @ [(k, v)]"
  by (induction ps) auto

lemma set_foldl_put:
  "set (foldl (\<lambda>acc kv. put (fst kv) (snd kv) acc) acc kvs) \<subseteq> set acc \<union> set kvs"
proof (induction kvs arbitrary: acc)
  case Nil
  show ?case by simp
next
  case (Cons kv kvs)
  have "set (foldl (\<lambda>acc kv. put (fst kv) (snd kv) acc) (put (fst kv) (snd kv) acc) kvs)
      \<subseteq> set (put (fst kv) (snd kv) acc) \<union> set kvs"
    by (rule Cons.IH)
  also have "\<dots> \<subseteq> insert kv (set acc) \<union> set kvs"
    using set_put [of "fst kv" "snd kv" acc] by auto
  finally show ?case by auto
qed

lemma distinct_foldl_put:
  "distinct (map fst acc) \<Longrightarrow>
     distinct (map fst (foldl (\<lambda>acc kv. put (fst kv) (snd kv) acc) acc kvs))"
  by (induction kvs arbitrary: acc) (simp_all add: distinct_put)

lemma foldl_put_distinct:
  "distinct (map fst (acc @ kvs)) \<Longrightarrow>
     foldl (\<lambda>acc kv. put (fst kv) (snd kv) acc) acc kvs = acc @ kvs"
proof (induction kvs arbitrary: acc)
  case Nil
  show ?case by simp
next
  case (Cons kv kvs)
  from Cons.prems have new: "fst kv \<notin> fst ` set acc" by auto
  from Cons.prems have "distinct (map fst ((acc @ [kv]) @ kvs))" by auto
  then have "foldl (\<lambda>acc kv. put (fst kv) (snd kv) acc) (acc @ [kv]) kvs = (acc @ [kv]) @ kvs"
    by (rule Cons.IH)
  then show ?case by (simp add: put_new [OF new])
qed

lemma distinct_keys_insort:
  "distinct (map fst (insort_key g x xs)) \<longleftrightarrow> fst x \<notin> fst ` set xs \<and> distinct (map fst xs)"
  by (induction xs) (auto simp: set_insort_key)

lemma distinct_keys_sort: "distinct (map fst (sort_key g xs)) \<longleftrightarrow> distinct (map fst xs)"
  by (induction xs) (simp_all add: distinct_keys_insort)

lemma own_properties_canonical:
  assumes "distinct (map fst ps)"
  defines "A \<equiv> sort_key (\<lambda>kv. nat_of_digits (fst kv)) (filter (\<lambda>kv. is_index (fst kv)) ps)"
    and "B \<equiv> filter (\<lambda>kv. \<not> is_index (fst kv)) ps"
  shows "own_properties (A @ B) = A @ B"
proof -
  have setA: "set A = {kv \<in> set ps. is_index (fst kv)}"
    by (auto simp: A_def)
  have setB: "set B = {kv \<in> set ps. \<not> is_index (fst kv)}"
    by (auto simp: B_def)
  have dA: "distinct (map fst A)"
    unfolding A_def using assms(1) by (simp add: distinct_keys_sort distinct_map_filter)
  have dB: "distinct (map fst B)"
    unfolding B_def using assms(1) by (simp add: distinct_map_filter)
  have "distinct (map fst (A @ B))"
    using dA dB setA setB by auto
  then have "foldl (\<lambda>acc kv. put (fst kv) (snd kv) acc) [] (A @ B) = A @ B"
    using foldl_put_distinct [of "[]" "A @ B"] by simp
  moreover have "filter (\<lambda>kv. is_index (fst kv)) (A @ B) = A"
    using setA setB by (auto simp: filter_id_conv filter_empty_conv)
  moreover have "filter (\<lambda>kv. \<not> is_index (fst kv)) (A @ B) = B"
    using setA setB by (auto simp: filter_id_conv filter_empty_conv)
  moreover have "sort_key (\<lambda>kv. nat_of_digits (fst kv)) A = A"
    by (rule sort_key_id_if_sorted) (simp add: A_def)
  ultimately show ?thesis
    by (simp add: own_properties_def)
qed

lemma own_properties_idem: "own_properties (own_properties kvs) = own_properties kvs"
proof -
  have "distinct (map fst (foldl (\<lambda>acc kv. put (fst kv) (snd kv) acc) [] kvs))"
    by (rule distinct_foldl_put) simp
  from own_properties_canonical [OF this] show ?thesis
    by (simp add: own_properties_def Let_def)
qed

lemma set_own_properties: "set (own_properties kvs) \<subseteq> set kvs"
  using set_foldl_put [of "[]" kvs] by (auto simp: own_properties_def Let_def)

lemma parse_number_valid: "parse_number s = Some (v, r) \<Longrightarrow> valid_json v"
  by (auto simp: parse_number_def split: list.splits if_splits option.splits)

lemma strip_prefix_atoms_valid:
  assumes "(case strip_prefix ''null'' t of
       Some r \<Rightarrow> Some (JNull, r)
     | None \<Rightarrow>
         (case strip_prefix ''true'' t of
            Some r \<Rightarrow> Some (JBool True, r)
          | None \<Rightarrow>
              (case strip_prefix ''false'' t of
                 Some r \<Rightarrow> Some (JBool False, r)
               | None \<Rightarrow> parse_number t))) = Some (v, r)"
  shows "valid_json v"
proof (cases "strip_prefix ''null'' t")
  case (Some a)
  with assms show ?thesis by auto
next
  case n: None
  show ?thesis
  proof (cases "strip_prefix ''true'' t")
    case (Some a)
    with assms n show ?thesis by auto
  next
    case t: None
    show ?thesis
    proof (cases "strip_prefix ''false'' t")
      case (Some a)
      with assms n t show ?thesis by auto
    next
      case None
      with assms n t have "parse_number t = Some (v, r)" by simp
      then show ?thesis by (rule parse_number_valid)
    qed
  qed
qed

lemma valid_json_own_properties:
  "list_all (\<lambda>kv. valid_json (snd kv)) kvs \<Longrightarrow> valid_json (JObj (own_properties kvs))"
  using set_own_properties [of kvs] by (auto simp: own_properties_idem list_all_iff)

lemma parse_value_Suc_valid:
  assumes elems: "\<And>s vs r. parse_elems n s = Some (vs, r) \<Longrightarrow> list_all valid_json vs"
    and members: "\<And>s kvs r. parse_members n s = Some (kvs, r) \<Longrightarrow>
      list_all (\<lambda>kv. valid_json (snd kv)) kvs"
    and p: "parse_value (Suc n) s = Some (v, r)"
  shows "valid_json v"
proof (cases "skip_ws s")
  case Nil
  with p show ?thesis by simp
next
  case (Cons c cs)
  consider (arr) "c = CHR ''[''" | (obj) "c \<noteq> CHR ''[''" "c = CHR ''{''"
    | (str) "c \<noteq> CHR ''[''" "c \<noteq> CHR ''{''" "c = CHR 0x22"
    | (atom) "c \<noteq> CHR ''[''" "c \<noteq> CHR ''{''" "c \<noteq> CHR 0x22"
    by blast
  then show ?thesis
  proof cases
    case arr
    show ?thesis
    proof (cases "skip_ws cs")
      case Nil
      with p Cons arr show ?thesis by simp
    next
      case d: (Cons d ds)
      show ?thesis
      proof (cases "d = CHR '']''")
        case True
        with p Cons arr d show ?thesis by auto
      next
        case False
        with p Cons arr d obtain xs where "parse_elems n cs = Some (xs, r)" "v = JArr xs"
          by (auto split: option.splits)
        with elems show ?thesis by auto
      qed
    qed
  next
    case obj
    show ?thesis
    proof (cases "skip_ws cs")
      case Nil
      with p Cons obj show ?thesis by simp
    next
      case d: (Cons d ds)
      show ?thesis
      proof (cases "d = CHR ''}''")
        case True
        with p Cons obj d show ?thesis by (auto simp: own_properties_def)
      next
        case False
        with p Cons obj d obtain kvs where "parse_members n cs = Some (kvs, r)"
          "v = JObj (own_properties kvs)"
          by (auto split: option.splits)
        with members valid_json_own_properties show ?thesis by blast
      qed
    qed
  next
    case str
    with p Cons show ?thesis by (auto split: option.splits)
  next
    case atom
    with p Cons have "(case strip_prefix ''null'' (c # cs) of
       Some r \<Rightarrow> Some (JNull, r)
     | None \<Rightarrow>
         (case strip_prefix ''true'' (c # cs) of
            Some r \<Rightarrow> Some (JBool True, r)
          | None \<Rightarrow>
              (case strip_prefix ''false'' (c # cs) of
                 Some r \<Rightarrow> Some (JBool False, r)
               | None \<Rightarrow> parse_number (c # cs)))) = Some (v, r)"
      by (simp del: strip_prefix.simps)
    then show ?thesis by (rule strip_prefix_atoms_valid)
  qed
qed

lemma parse_elems_Suc_valid:
  assumes val: "\<And>s v r. parse_value n s = Some (v, r) \<Longrightarrow> valid_json v"
    and elems: "\<And>s vs r. parse_elems n s = Some (vs, r) \<Longrightarrow> list_all valid_json vs"
    and p: "parse_elems (Suc n) s = Some (vs, r)"
  shows "list_all valid_json vs"
proof -
  from p obtain v t where v: "parse_value n s = Some (v, t)"
    by (auto split: option.splits)
  then have "valid_json v" by (rule val)
  show ?thesis
  proof (cases "skip_ws t")
    case Nil
    with p v show ?thesis by simp
  next
    case (Cons c cs)
    show ?thesis
    proof (cases "c = CHR '',''")
      case True
      with p v Cons obtain ws where "parse_elems n cs = Some (ws, r)" "vs = v # ws"
        by (auto split: option.splits)
      with elems \<open>valid_json v\<close> show ?thesis by auto
    next
      case False
      with p v Cons \<open>valid_json v\<close> show ?thesis by (auto split: if_splits)
    qed
  qed
qed

lemma parse_members_Suc_valid:
  assumes val: "\<And>s v r. parse_value n s = Some (v, r) \<Longrightarrow> valid_json v"
    and members: "\<And>s kvs r. parse_members n s = Some (kvs, r) \<Longrightarrow>
      list_all (\<lambda>kv. valid_json (snd kv)) kvs"
    and p: "parse_members (Suc n) s = Some (kvs, r)"
  shows "list_all (\<lambda>kv. valid_json (snd kv)) kvs"
proof (cases "skip_ws s")
  case Nil
  with p show ?thesis by simp
next
  case q: (Cons q qs)
  with p have q': "q = CHR 0x22" by (auto split: if_splits)
  with p q obtain k t where k: "parse_chars qs = Some (k, t)"
    by (auto split: option.splits)
  show ?thesis
  proof (cases "skip_ws t")
    case Nil
    with p q q' k show ?thesis by simp
  next
    case c: (Cons c cs)
    with p q q' k have c': "c = CHR '':''" by (auto split: if_splits)
    with p q q' k c obtain v t' where v: "parse_value n cs = Some (v, t')"
      by (auto split: option.splits)
    then have "valid_json v" by (rule val)
    show ?thesis
    proof (cases "skip_ws t'")
      case Nil
      with p q q' k c c' v show ?thesis by simp
    next
      case d: (Cons d ds)
      show ?thesis
      proof (cases "d = CHR '',''")
        case True
        with p q q' k c c' v d obtain ws where "parse_members n ds = Some (ws, r)"
          "kvs = (k, v) # ws"
          by (auto split: option.splits)
        with members \<open>valid_json v\<close> show ?thesis by auto
      next
        case False
        with p q q' k c c' v d \<open>valid_json v\<close> show ?thesis by (auto split: if_splits)
      qed
    qed
  qed
qed

lemma parse_valid:
  "(\<forall>s v r. parse_value n s = Some (v, r) \<longrightarrow> valid_json v) \<and>
   (\<forall>s vs r. parse_elems n s = Some (vs, r) \<longrightarrow> list_all valid_json vs) \<and>
   (\<forall>s kvs r. parse_members n s = Some (kvs, r) \<longrightarrow> list_all (\<lambda>kv. valid_json (snd kv)) kvs)"
proof (induction n)
  case 0
  show ?case by simp
next
  case (Suc n)
  then have val: "\<And>s v r. parse_value n s = Some (v, r) \<Longrightarrow> valid_json v"
    and elems: "\<And>s vs r. parse_elems n s = Some (vs, r) \<Longrightarrow> list_all valid_json vs"
    and members: "\<And>s kvs r. parse_members n s = Some (kvs, r) \<Longrightarrow>
      list_all (\<lambda>kv. valid_json (snd kv)) kvs"
    by blast+
  have 1: "valid_json v" if "parse_value (Suc n) s = Some (v, r)" for s v r
    using elems members that by (rule parse_value_Suc_valid)
  have 2: "list_all valid_json vs" if "parse_elems (Suc n) s = Some (vs, r)" for s vs r
    using val elems that by (rule parse_elems_Suc_valid)
  have 3: "list_all (\<lambda>kv. valid_json (snd kv)) kvs"
    if "parse_members (Suc n) s = Some (kvs, r)" for s kvs r
    using val members that by (rule parse_members_Suc_valid)
  from 1 2 3 show ?case by blast
qed

lemma JSON_parse_valid: "JSON_parse s = Some v \<Longrightarrow> valid_json v"
  using parse_valid [of "length s"]
  by (auto simp: JSON_parse_def split: option.splits prod.splits if_splits)

section \<open>The bound of the parser\<close>

lemma length_skip_ws: "length (skip_ws s) \<le> length s"
  by (simp add: skip_ws_def length_dropWhile_le)

lemma skip_ws_Cons_length: "skip_ws s = c # cs \<Longrightarrow> length cs < length s"
  using length_skip_ws [of s] by simp

lemma parse_chars_length: "parse_chars s = Some (str, r) \<Longrightarrow> length r < length s"
proof (induction s arbitrary: str rule: length_induct)
  case (1 s)
  then have IH: "\<And>t str. length t < length s \<Longrightarrow> parse_chars t = Some (str, r) \<Longrightarrow>
      length r < length t"
    by blast
  from "1.prems" obtain c cs where s: "s = c # cs"
    by (cases s) auto
  consider (quote) "c = CHR 0x22"
    | (uni) "c \<noteq> CHR 0x22" "c = CHR 0x5C" "\<exists>r. cs = CHR ''u'' # r"
    | (esc) "c \<noteq> CHR 0x22" "c = CHR 0x5C" "\<not> (\<exists>r. cs = CHR ''u'' # r)"
    | (plain) "c \<noteq> CHR 0x22" "c \<noteq> CHR 0x5C"
    by blast
  then show ?case
  proof cases
    case quote
    with "1.prems" s show ?thesis by simp
  next
    case uni
    then obtain t where cs: "cs = CHR ''u'' # t" by blast
    with uni "1.prems" s obtain h1 h2 h3 h4 r' str'
      where t: "t = h1 # h2 # h3 # h4 # r'" and rest: "parse_chars r' = Some (str', r)"
      by (auto split: list.splits option.splits if_splits)
    have "length r < length r'"
      by (rule IH [OF _ rest]) (simp add: s cs t)
    then show ?thesis by (simp add: s cs t)
  next
    case esc
    with "1.prems" s obtain e t str'
      where cs: "cs = e # t" and rest: "parse_chars t = Some (str', r)"
      by (auto split: list.splits option.splits if_splits)
    have "length r < length t"
      by (rule IH [OF _ rest]) (simp add: s cs)
    then show ?thesis by (simp add: s cs)
  next
    case plain
    with "1.prems" s obtain str' where rest: "parse_chars cs = Some (str', r)"
      by (auto split: option.splits if_splits)
    have "length r < length cs"
      by (rule IH [OF _ rest]) (simp add: s)
    then show ?thesis by (simp add: s)
  qed
qed

lemma strip_prefix_length: "strip_prefix p s = Some r \<Longrightarrow> length r + length p = length s"
  by (induction p s rule: strip_prefix.induct) (auto split: if_splits)

lemma parse_nat_length: "parse_nat s = Some (n, r) \<Longrightarrow> length r < length s"
proof (cases s)
  case Nil
  assume "parse_nat s = Some (n, r)"
  with Nil show ?thesis by (simp add: parse_nat_def)
next
  case (Cons c cs)
  assume p: "parse_nat s = Some (n, r)"
  show ?thesis
  proof (cases "c = CHR ''0''")
    case True
    with p Cons show ?thesis by (simp add: parse_nat_def)
  next
    case False
    with p Cons have "is_digit c" "r = dropWhile is_digit cs"
      by (auto simp: parse_nat_def split: if_splits)
    with Cons show ?thesis
      using length_dropWhile_le [of is_digit cs] by simp
  qed
qed

lemma parse_number_length: "parse_number s = Some (v, r) \<Longrightarrow> length r < length s"
  by (cases s) (auto simp: parse_number_def split: if_splits option.splits
      dest!: parse_nat_length)

lemma settledI:
  assumes "length r < length s"
    and "\<And>m. length s - length r \<le> Suc m \<Longrightarrow> f (Suc m) s = Some (x, r)"
  shows "settled f s x r"
  unfolding settled_def
proof (intro conjI allI impI)
  fix m assume m: "length s - length r \<le> m"
  with assms(1) obtain m' where "m = Suc m'" by (cases m) auto
  with m assms(2) show "f m s = Some (x, r)" by simp
qed (fact assms(1))

lemma settledD:
  "settled f s x r \<Longrightarrow> length s - length r \<le> m \<Longrightarrow> f m s = Some (x, r)"
  by (simp add: settled_def)

lemma settled_length: "settled f s x r \<Longrightarrow> length r < length s"
  by (simp add: settled_def)

lemma parse_value_Suc_settled:
  assumes elems: "\<And>s vs r. parse_elems n s = Some (vs, r) \<Longrightarrow> settled parse_elems s vs r"
    and members: "\<And>s kvs r. parse_members n s = Some (kvs, r) \<Longrightarrow> settled parse_members s kvs r"
    and p: "parse_value (Suc n) s = Some (v, r)"
  shows "settled parse_value s v r"
proof (cases "skip_ws s")
  case Nil
  with p show ?thesis by simp
next
  case (Cons c cs)
  then have cs: "length cs < length s" by (rule skip_ws_Cons_length)
  consider (arr) "c = CHR ''[''" | (obj) "c \<noteq> CHR ''[''" "c = CHR ''{''"
    | (str) "c \<noteq> CHR ''[''" "c \<noteq> CHR ''{''" "c = CHR 0x22"
    | (atom) "c \<noteq> CHR ''[''" "c \<noteq> CHR ''{''" "c \<noteq> CHR 0x22"
    by blast
  then show ?thesis
  proof cases
    case arr
    show ?thesis
    proof (cases "skip_ws cs")
      case Nil
      with p Cons arr show ?thesis by simp
    next
      case d: (Cons d ds)
      then have ds: "length ds < length cs" by (rule skip_ws_Cons_length)
      show ?thesis
      proof (cases "d = CHR '']''")
        case True
        with p Cons arr d have "v = JArr []" "r = ds" by auto
        with Cons arr d True cs ds show ?thesis
          by (intro settledI) simp_all
      next
        case False
        with p Cons arr d obtain xs where xs: "parse_elems n cs = Some (xs, r)" "v = JArr xs"
          by (auto split: option.splits)
        from elems [OF xs(1)] have e: "settled parse_elems cs xs r" .
        show ?thesis
        proof (rule settledI)
          show "length r < length s"
            using settled_length [OF e] cs by simp
        next
          fix m assume "length s - length r \<le> Suc m"
          with cs have "length cs - length r \<le> m" by simp
          from settledD [OF e this] Cons arr d False xs(2)
          show "parse_value (Suc m) s = Some (v, r)" by simp
        qed
      qed
    qed
  next
    case obj
    show ?thesis
    proof (cases "skip_ws cs")
      case Nil
      with p Cons obj show ?thesis by simp
    next
      case d: (Cons d ds)
      then have ds: "length ds < length cs" by (rule skip_ws_Cons_length)
      show ?thesis
      proof (cases "d = CHR ''}''")
        case True
        with p Cons obj d have "v = JObj []" "r = ds" by auto
        with Cons obj d True cs ds show ?thesis
          by (intro settledI) simp_all
      next
        case False
        with p Cons obj d obtain kvs where kvs: "parse_members n cs = Some (kvs, r)"
          "v = JObj (own_properties kvs)"
          by (auto split: option.splits)
        from members [OF kvs(1)] have e: "settled parse_members cs kvs r" .
        show ?thesis
        proof (rule settledI)
          show "length r < length s"
            using settled_length [OF e] cs by simp
        next
          fix m assume "length s - length r \<le> Suc m"
          with cs have "length cs - length r \<le> m" by simp
          from settledD [OF e this] Cons obj d False kvs(2)
          show "parse_value (Suc m) s = Some (v, r)" by simp
        qed
      qed
    qed
  next
    case str
    with p Cons obtain t where t: "parse_chars cs = Some (t, r)" "v = JStr t"
      by (auto split: option.splits)
    from parse_chars_length [OF t(1)] cs Cons str t show ?thesis
      by (intro settledI) simp_all
  next
    case atom
    let ?atoms = "\<lambda>t. (case strip_prefix ''null'' t of
       Some r \<Rightarrow> Some (JNull, r)
     | None \<Rightarrow>
         (case strip_prefix ''true'' t of
            Some r \<Rightarrow> Some (JBool True, r)
          | None \<Rightarrow>
              (case strip_prefix ''false'' t of
                 Some r \<Rightarrow> Some (JBool False, r)
               | None \<Rightarrow> parse_number t)))"
    have any: "parse_value (Suc m) s = ?atoms (c # cs)" for m
      using Cons atom by (simp del: strip_prefix.simps)
    with p have a: "?atoms (c # cs) = Some (v, r)" by simp
    then have "length r < length (c # cs)"
      by (auto split: option.splits dest: strip_prefix_length parse_number_length
          simp del: strip_prefix.simps)
    with cs have "length r < length s"
      using length_skip_ws [of s] Cons by simp
    then show ?thesis
      using any a by (intro settledI) simp_all
  qed
qed

lemma parse_elems_Suc_settled:
  assumes val: "\<And>s v r. parse_value n s = Some (v, r) \<Longrightarrow> settled parse_value s v r"
    and elems: "\<And>s vs r. parse_elems n s = Some (vs, r) \<Longrightarrow> settled parse_elems s vs r"
    and p: "parse_elems (Suc n) s = Some (vs, r)"
  shows "settled parse_elems s vs r"
proof -
  from p obtain v t where v: "parse_value n s = Some (v, t)"
    by (auto split: option.splits)
  from val [OF v] have sv: "settled parse_value s v t" .
  then have t: "length t < length s" by (rule settled_length)
  show ?thesis
  proof (cases "skip_ws t")
    case Nil
    with p v show ?thesis by simp
  next
    case (Cons c cs)
    then have cs: "length cs < length t" by (rule skip_ws_Cons_length)
    show ?thesis
    proof (cases "c = CHR '',''")
      case True
      with p v Cons obtain ws where ws: "parse_elems n cs = Some (ws, r)" "vs = v # ws"
        by (auto split: option.splits)
      from elems [OF ws(1)] have se: "settled parse_elems cs ws r" .
      then have r: "length r < length cs" by (rule settled_length)
      show ?thesis
      proof (rule settledI)
        show "length r < length s" using r cs t by simp
      next
        fix m assume m: "length s - length r \<le> Suc m"
        with r cs t have "length s - length t \<le> m" "length cs - length r \<le> m"
          by simp_all
        from settledD [OF sv this(1)] settledD [OF se this(2)] Cons True ws(2)
        show "parse_elems (Suc m) s = Some (vs, r)" by simp
      qed
    next
      case False
      with p v Cons have c: "c = CHR '']''" and r: "r = cs" and vs: "vs = [v]"
        by (auto split: if_splits)
      show ?thesis
      proof (rule settledI)
        show "length r < length s" using r cs t by simp
      next
        fix m assume m: "length s - length r \<le> Suc m"
        with r cs t have "length s - length t \<le> m" by simp
        from settledD [OF sv this] Cons c r vs
        show "parse_elems (Suc m) s = Some (vs, r)" by simp
      qed
    qed
  qed
qed

lemma parse_members_Suc_settled:
  assumes val: "\<And>s v r. parse_value n s = Some (v, r) \<Longrightarrow> settled parse_value s v r"
    and members: "\<And>s kvs r. parse_members n s = Some (kvs, r) \<Longrightarrow> settled parse_members s kvs r"
    and p: "parse_members (Suc n) s = Some (kvs, r)"
  shows "settled parse_members s kvs r"
proof (cases "skip_ws s")
  case Nil
  with p show ?thesis by simp
next
  case q: (Cons q qs)
  then have qs: "length qs < length s" by (rule skip_ws_Cons_length)
  from p q have q': "q = CHR 0x22" by (auto split: if_splits)
  with p q obtain k t where k: "parse_chars qs = Some (k, t)"
    by (auto split: option.splits)
  then have t: "length t < length qs" by (rule parse_chars_length)
  show ?thesis
  proof (cases "skip_ws t")
    case Nil
    with p q q' k show ?thesis by simp
  next
    case c: (Cons c cs)
    then have cs: "length cs < length t" by (rule skip_ws_Cons_length)
    from p q q' k c have c': "c = CHR '':''" by (auto split: if_splits)
    with p q q' k c obtain v t' where v: "parse_value n cs = Some (v, t')"
      by (auto split: option.splits)
    from val [OF v] have sv: "settled parse_value cs v t'" .
    then have t': "length t' < length cs" by (rule settled_length)
    show ?thesis
    proof (cases "skip_ws t'")
      case Nil
      with p q q' k c c' v show ?thesis by simp
    next
      case d: (Cons d ds)
      then have ds: "length ds < length t'" by (rule skip_ws_Cons_length)
      show ?thesis
      proof (cases "d = CHR '',''")
        case True
        with p q q' k c c' v d obtain ws where ws: "parse_members n ds = Some (ws, r)"
          "kvs = (k, v) # ws"
          by (auto split: option.splits)
        from members [OF ws(1)] have sm: "settled parse_members ds ws r" .
        then have r: "length r < length ds" by (rule settled_length)
        show ?thesis
        proof (rule settledI)
          show "length r < length s" using r ds t' cs t qs by simp
        next
          fix m assume m: "length s - length r \<le> Suc m"
          with r ds t' cs t qs have "length cs - length t' \<le> m" "length ds - length r \<le> m"
            by simp_all
          from settledD [OF sv this(1)] settledD [OF sm this(2)] q q' k c c' d True ws(2)
          show "parse_members (Suc m) s = Some (kvs, r)" by simp
        qed
      next
        case False
        with p q q' k c c' v d have d': "d = CHR ''}''" and r: "r = ds" and kvs: "kvs = [(k, v)]"
          by (auto split: if_splits)
        show ?thesis
        proof (rule settledI)
          show "length r < length s" using r ds t' cs t qs by simp
        next
          fix m assume m: "length s - length r \<le> Suc m"
          with r ds t' cs t qs have "length cs - length t' \<le> m" by simp
          from settledD [OF sv this] q q' k c c' d d' r kvs
          show "parse_members (Suc m) s = Some (kvs, r)" by simp
        qed
      qed
    qed
  qed
qed

lemma parse_settled:
  "(\<forall>s v r. parse_value n s = Some (v, r) \<longrightarrow> settled parse_value s v r) \<and>
   (\<forall>s vs r. parse_elems n s = Some (vs, r) \<longrightarrow> settled parse_elems s vs r) \<and>
   (\<forall>s kvs r. parse_members n s = Some (kvs, r) \<longrightarrow> settled parse_members s kvs r)"
proof (induction n)
  case 0
  show ?case by simp
next
  case (Suc n)
  then have val: "\<And>s v r. parse_value n s = Some (v, r) \<Longrightarrow> settled parse_value s v r"
    and elems: "\<And>s vs r. parse_elems n s = Some (vs, r) \<Longrightarrow> settled parse_elems s vs r"
    and members: "\<And>s kvs r. parse_members n s = Some (kvs, r) \<Longrightarrow>
      settled parse_members s kvs r"
    by blast+
  have 1: "settled parse_value s v r" if "parse_value (Suc n) s = Some (v, r)" for s v r
    using elems members that by (rule parse_value_Suc_settled)
  have 2: "settled parse_elems s vs r" if "parse_elems (Suc n) s = Some (vs, r)" for s vs r
    using val elems that by (rule parse_elems_Suc_settled)
  have 3: "settled parse_members s kvs r" if "parse_members (Suc n) s = Some (kvs, r)" for s kvs r
    using val members that by (rule parse_members_Suc_settled)
  from 1 2 3 show ?case by blast
qed

text \<open>
  The length of the text is a bound with which \<open>JSON_parse\<close> reads every text that can
  be read with any bound at all.
\<close>

lemma parse_value_length:
  assumes "parse_value n s = Some (v, r)"
  shows "parse_value (length s) s = Some (v, r)"
proof -
  from parse_settled [of n] assms have "settled parse_value s v r" by blast
  then show ?thesis by (rule settledD) simp
qed

lemma JSON_parse_complete:
  "parse_value n s = Some (v, r) \<Longrightarrow> skip_ws r = [] \<Longrightarrow> JSON_parse s = Some v"
  by (simp add: JSON_parse_def parse_value_length)

lemma JSON_parse_None_iff:
  "JSON_parse s = None \<longleftrightarrow> (\<forall>n v r. parse_value n s = Some (v, r) \<longrightarrow> skip_ws r \<noteq> [])"
proof
  assume none: "JSON_parse s = None"
  show "\<forall>n v r. parse_value n s = Some (v, r) \<longrightarrow> skip_ws r \<noteq> []"
  proof (intro allI impI notI)
    fix n v r assume "parse_value n s = Some (v, r)" "skip_ws r = []"
    then have "JSON_parse s = Some v" by (rule JSON_parse_complete)
    with none show False by simp
  qed
next
  assume "\<forall>n v r. parse_value n s = Some (v, r) \<longrightarrow> skip_ws r \<noteq> []"
  then show "JSON_parse s = None"
    by (auto simp: JSON_parse_def split: option.splits)
qed

section \<open>The storage adapter\<close>

lemma loadFromStorage_saveToStorage:
  "valid_json v \<Longrightarrow> loadFromStorage key fallback (saveToStorage key v st) = v"
  by (simp add: loadFromStorage_def loadFromStorage_try_def saveToStorage_def
      JSON_parse_stringify JSON_stringify_not_Nil)






section \<open>The state holds values, and the storage holds the state\<close>


lemma valid_json_loadFromStorage:
  "valid_json fallback \<Longrightarrow> valid_json (loadFromStorage key fallback st)"
  by (auto simp: loadFromStorage_def loadFromStorage_try_def JSON_parse_valid
      split: option.splits sum.splits)

lemma valid_json_App:
  "valid_json (messages (App st))" "valid_json (resources (App st))" "valid_json (infos (App st))"
  by (simp_all add: App_def valid_json_loadFromStorage)

lemma own_properties_fileData:
  "own_properties [(''name'', n), (''size'', s), (''data'', d)] = [(''name'', n), (''size'', s), (''data'', d)]"
  by (simp add: own_properties_def is_index_def is_digit_def)

lemma own_properties_msg:
  "own_properties [(''id'', a), (''name'', b), (''email'', c), (''subject'', d), (''message'', e),
      (''file'', f), (''createdAt'', g), (''status'', h)]
   = [(''id'', a), (''name'', b), (''email'', c), (''subject'', d), (''message'', e),
      (''file'', f), (''createdAt'', g), (''status'', h)]"
  by (simp add: own_properties_def is_index_def is_digit_def)

lemma valid_json_handleSubmit:
  "snd (handleSubmit rnd now c) = Some msg \<Longrightarrow> valid_json msg"
  by (auto simp: handleSubmit_def own_properties_msg own_properties_fileData
      split: option.splits sum.splits)

lemma valid_json_spread_append:
  "valid_json prev \<Longrightarrow> valid_json x \<Longrightarrow> spread_append prev x = Inr r \<Longrightarrow> valid_json r"
  by (auto simp: spread_append_def list_all_iff split: json.splits)

lemma synced_effects: "synced a (effects a st)"
  by (simp add: synced_def effects_def effect_messages_def effect_resources_def effect_infos_def
      saveToStorage_def)

lemma effect_messages_synced: "synced a st \<Longrightarrow> effect_messages a st = st"
  by (auto simp: synced_def effect_messages_def saveToStorage_def fun_eq_iff)

lemma effect_resources_synced: "synced a st \<Longrightarrow> effect_resources a st = st"
  by (auto simp: synced_def effect_resources_def saveToStorage_def fun_eq_iff)

lemma synced_saved:
  "synced a st \<Longrightarrow>
     synced (a\<lparr>messages := ms\<rparr>) (effect_messages (a\<lparr>messages := ms\<rparr>) st) \<and>
     synced (a\<lparr>resources := rs\<rparr>) (effect_resources (a\<lparr>resources := rs\<rparr>) st) \<and>
     synced (a\<lparr>infos := is\<rparr>) (effect_infos (a\<lparr>infos := is\<rparr>) st)"
  by (simp add: synced_def effect_messages_def effect_resources_def effect_infos_def
      saveToStorage_def)

lemma synced_handleSendMessage:
  "synced a st \<Longrightarrow> handleSendMessage msg (a, st) = Inr (a', st') \<Longrightarrow> synced a' st'"
  by (auto simp: handleSendMessage_def synced_saved split: sum.splits)

lemma synced_handlePostInfo:
  "synced a st \<Longrightarrow> handlePostInfo type payload (a, st) = Inr (a', st') \<Longrightarrow> synced a' st'"
  by (auto simp: handlePostInfo_def synced_saved split: sum.splits if_splits)

lemma synced_handleDeleteMessage:
  "synced a st \<Longrightarrow> handleDeleteMessage c i (a, st) = Inr (a', st') \<Longrightarrow> synced a' st'"
  by (auto simp: handleDeleteMessage_def synced_saved split: sum.splits if_splits)

lemma synced_handleDeleteResource:
  "synced a st \<Longrightarrow> handleDeleteResource c i (a, st) = Inr (a', st') \<Longrightarrow> synced a' st'"
  by (auto simp: handleDeleteResource_def synced_saved split: sum.splits if_splits)

section \<open>The small portal\<close>


lemma synced_portal: "synced portal portal_storage"
  by (simp add: portal_storage_def synced_effects)

section \<open>The contact form\<close>

text \<open>
  Claim C3. The contact form submitted with a body and nothing else, no name, no
  e-mail address, no subject and no file, hands \<open>onSend\<close> a message with the name
  \<open>Anonymous\<close>, the subject \<open>General\<close>, the body as its text, \<open>null\<close> as its file
  and the status \<open>unread\<close>.
\<close>

theorem contact_defaults:
  assumes "body \<noteq> []"
    and "name c = []" "email c = []" "subject c = []" "message c = body" "file' c = None"
  shows "\<exists>msg. snd (handleSubmit rnd now c) = Some msg \<and>
           get_prop msg ''name'' = Inr (Some (JStr ''Anonymous'')) \<and>
           get_prop msg ''subject'' = Inr (Some (JStr ''General'')) \<and>
           get_prop msg ''message'' = Inr (Some (JStr body)) \<and>
           get_prop msg ''file'' = Inr (Some JNull) \<and>
           get_prop msg ''status'' = Inr (Some (JStr ''unread''))"
  using assms by (simp add: handleSubmit_def get_prop_def)

theorem contact_defaults_witness:
  "''printer broken'' \<noteq> [] \<and>
   snd (handleSubmit ''k3x9q0z'' ''2024-05-01T10:00:00.000Z'' (Contact\<lparr>message := ''printer broken''\<rparr>))
     = Some msg1 \<and>
   get_prop msg1 ''name'' = Inr (Some (JStr ''Anonymous'')) \<and>
   get_prop msg1 ''subject'' = Inr (Some (JStr ''General'')) \<and>
   get_prop msg1 ''message'' = Inr (Some (JStr ''printer broken'')) \<and>
   get_prop msg1 ''file'' = Inr (Some JNull) \<and>
   get_prop msg1 ''status'' = Inr (Some (JStr ''unread''))"
  using contact_defaults [of "''printer broken''" "Contact\<lparr>message := ''printer broken''\<rparr>"
      "''k3x9q0z''" "''2024-05-01T10:00:00.000Z''"]
  by (simp add: Contact_def handleSubmit_def uid_def msg1_def get_prop_def)

section \<open>Deleting\<close>

lemma get_prop_not_null: "m \<noteq> JNull \<Longrightarrow> \<exists>v. get_prop m k = Inr v"
  by (cases m) (simp_all add: get_prop_def)

lemma filter_id_filter:
  "JNull \<notin> set ms \<Longrightarrow> filter_id i ms = Inr (filter (\<lambda>m. \<not> has_id i m) ms)"
proof (induction ms)
  case Nil
  show ?case by simp
next
  case (Cons m ms)
  then have "m \<noteq> JNull" by auto
  from get_prop_not_null [OF this] obtain v where "get_prop m ''id'' = Inr v" by blast
  with Cons show ?case by (simp add: has_id_def)
qed

lemma filter_id_null: "JNull \<in> set ms \<Longrightarrow> filter_id i ms = Inl TypeError"
proof (induction ms)
  case Nil
  then show ?case by simp
next
  case (Cons m ms)
  show ?case
  proof (cases "m = JNull")
    case True
    then show ?thesis by (simp add: get_prop_def)
  next
    case False
    from get_prop_not_null [OF this] obtain v where "get_prop m ''id'' = Inr v" by blast
    moreover have "filter_id i ms = Inl TypeError" using Cons False by simp
    ultimately show ?thesis by simp
  qed
qed

lemma filter_none: "\<forall>m\<in>set ms. \<not> P m \<Longrightarrow> filter (\<lambda>m. \<not> P m) ms = ms"
  by (induction ms) simp_all

text \<open>
  Claim C4. Deleting, with the confirmation accepted, by an identifier that no entry
  has leaves the collection as it was, in the state and in the storage: for
  the messages and for the resources alike.
\<close>

theorem delete_absent_unchanged:
  assumes "synced a st"
    and "messages a = JArr ms" "JNull \<notin> set ms" "\<forall>m\<in>set ms. \<not> has_id i m"
    and "resources a = JArr rs" "JNull \<notin> set rs" "\<forall>r\<in>set rs. \<not> has_id j r"
  shows "handleDeleteMessage True i (a, st) = Inr (a, st) \<and>
         handleDeleteResource True j (a, st) = Inr (a, st)"
proof -
  have "Array_filter_id i (messages a) = Inr (messages a)"
    using assms(2-4) by (simp add: Array_filter_id_def filter_id_filter filter_none)
  moreover have "Array_filter_id j (resources a) = Inr (resources a)"
    using assms(5-7) by (simp add: Array_filter_id_def filter_id_filter filter_none)
  ultimately show ?thesis
    using assms(1)
    by (simp add: handleDeleteMessage_def handleDeleteResource_def effect_messages_synced
        effect_resources_synced)
qed

theorem delete_absent_unchanged_witness:
  "synced portal portal_storage \<and>
   messages portal = JArr [msg1] \<and> msg1 \<noteq> JNull \<and> \<not> has_id ''msg_0000000'' msg1 \<and>
   resources portal = JArr [res1] \<and> res1 \<noteq> JNull \<and> \<not> has_id ''res_0000000'' res1 \<and>
   handleDeleteMessage True ''msg_0000000'' (portal, portal_storage) = Inr (portal, portal_storage) \<and>
   handleDeleteResource True ''res_0000000'' (portal, portal_storage) = Inr (portal, portal_storage)"
proof -
  have m: "messages portal = JArr [msg1]" "JNull \<notin> set [msg1]" "\<forall>m\<in>set [msg1]. \<not> has_id ''msg_0000000'' m"
    by (simp_all add: portal_def msg1_def has_id_def get_prop_def)
  have r: "resources portal = JArr [res1]" "JNull \<notin> set [res1]" "\<forall>r\<in>set [res1]. \<not> has_id ''res_0000000'' r"
    by (simp_all add: portal_def res1_def has_id_def get_prop_def)
  from delete_absent_unchanged [OF synced_portal m r] m r synced_portal show ?thesis
    by simp
qed

text \<open>
  Claim C5, as amended. With the confirmation accepted, a delete removes every entry
  whose identifier is the given one and keeps all the others, in their order; the
  collection gets shorter by the number of entries that had the identifier, so by
  exactly one when exactly one entry had it.
\<close>

theorem delete_removes_matching:
  assumes "messages a = JArr ms" "JNull \<notin> set ms"
    and "resources a = JArr rs" "JNull \<notin> set rs"
  shows "handleDeleteMessage True i (a, st) =
           Inr (a\<lparr>messages := JArr (filter (\<lambda>m. \<not> has_id i m) ms)\<rparr>,
                effect_messages (a\<lparr>messages := JArr (filter (\<lambda>m. \<not> has_id i m) ms)\<rparr>) st) \<and>
         length (filter (\<lambda>m. \<not> has_id i m) ms) + length (filter (has_id i) ms) = length ms \<and>
         handleDeleteResource True j (a, st) =
           Inr (a\<lparr>resources := JArr (filter (\<lambda>r. \<not> has_id j r) rs)\<rparr>,
                effect_resources (a\<lparr>resources := JArr (filter (\<lambda>r. \<not> has_id j r) rs)\<rparr>) st) \<and>
         length (filter (\<lambda>r. \<not> has_id j r) rs) + length (filter (has_id j) rs) = length rs"
  using assms
  by (simp add: handleDeleteMessage_def handleDeleteResource_def Array_filter_id_def
      filter_id_filter sum_length_filter_compl add.commute)

theorem delete_removes_one_counterexample:
  "has_id ''msg_a'' (JObj [(''id'', JStr ''msg_a''), (''message'', JStr ''first'')]) \<and>
   handleDeleteMessage True ''msg_a''
     (\<lparr>route = ''admin'',
       messages = JArr [JObj [(''id'', JStr ''msg_a''), (''message'', JStr ''first'')],
                        JObj [(''id'', JStr ''msg_a''), (''message'', JStr ''second'')]],
       resources = JArr [], infos = JArr []\<rparr>,
      Map.empty)
   = Inr (\<lparr>route = ''admin'', messages = JArr [], resources = JArr [], infos = JArr []\<rparr>,
          [''sr_messages'' \<mapsto> ''[]''])"
  by (simp add: handleDeleteMessage_def Array_filter_id_def get_prop_def has_id_def
      effect_messages_def saveToStorage_def JSON_stringify_def)

theorem delete_removes_matching_witness:
  "messages (portal\<lparr>messages := JArr [msg1, info1]\<rparr>) = JArr [msg1, info1] \<and>
   JNull \<notin> set [msg1, info1] \<and>
   resources (portal\<lparr>messages := JArr [msg1, info1]\<rparr>) = JArr [res1] \<and>
   JNull \<notin> set [res1] \<and>
   handleDeleteMessage True ''msg_k3x9q0z'' (portal\<lparr>messages := JArr [msg1, info1]\<rparr>, portal_storage)
     = Inr (portal\<lparr>messages := JArr [info1]\<rparr>,
            effect_messages (portal\<lparr>messages := JArr [info1]\<rparr>) portal_storage) \<and>
   handleDeleteResource True ''res_8fj2k1a'' (portal\<lparr>messages := JArr [msg1, info1]\<rparr>, portal_storage)
     = Inr (portal\<lparr>messages := JArr [msg1, info1], resources := JArr []\<rparr>,
            effect_resources (portal\<lparr>messages := JArr [msg1, info1], resources := JArr []\<rparr>)
              portal_storage)"
proof -
  have m: "messages (portal\<lparr>messages := JArr [msg1, info1]\<rparr>) = JArr [msg1, info1]"
    "JNull \<notin> set [msg1, info1]"
    by (simp_all add: msg1_def info1_def)
  have r: "resources (portal\<lparr>messages := JArr [msg1, info1]\<rparr>) = JArr [res1]" "JNull \<notin> set [res1]"
    by (simp_all add: portal_def res1_def)
  have ids: "has_id ''msg_k3x9q0z'' msg1" "\<not> has_id ''msg_k3x9q0z'' info1" "has_id ''res_8fj2k1a'' res1"
    by (simp_all add: msg1_def info1_def res1_def has_id_def get_prop_def)
  from delete_removes_matching [OF m r, of "''msg_k3x9q0z''" portal_storage "''res_8fj2k1a''"] m r ids
  show ?thesis by simp
qed

text \<open>
  Claim C10. When the confirmation is declined, a delete changes nothing: the state
  with its three collections and the storage are what they were.
\<close>

theorem delete_declined_unchanged:
  "handleDeleteMessage False i (a, st) = Inr (a, st) \<and>
   handleDeleteResource False i (a, st) = Inr (a, st)"
  by (simp add: handleDeleteMessage_def handleDeleteResource_def)

theorem delete_declined_unchanged_witness:
  "handleDeleteMessage False ''msg_k3x9q0z'' (portal, portal_storage) = Inr (portal, portal_storage) \<and>
   handleDeleteResource False ''msg_k3x9q0z'' (portal, portal_storage) = Inr (portal, portal_storage)"
  by (rule delete_declined_unchanged)

section \<open>The admin login\<close>

lemma valid_json_JBool: "valid_json (JBool b)"
  by simp

text \<open>
  Claim C7. A login with the fixed password shows the panel, stores the flag, and a
  component mounted again on that storage shows the panel after its effect. A login
  with any other input changes neither the state nor the storage: a component that
  showed the login form still shows it, and so does one mounted again where no flag
  was stored.
\<close>

theorem admin_login:
  "(pw ad = DEFAULT_ADMIN_PASSWORD \<longrightarrow>
      (\<exists>ad' st'. login (ad, st) = (ad', st', None) \<and> shows_panel ad' \<and>
         st' ''sr_admin_logged'' = Some ''true'' \<and> shows_panel (Admin_effect st' Admin))) \<and>
   (pw ad \<noteq> DEFAULT_ADMIN_PASSWORD \<longrightarrow>
      (\<exists>alert. login (ad, st) = (ad, st, Some alert)) \<and>
      (\<not> shows_panel ad \<longrightarrow> \<not> shows_panel (fst (login (ad, st)))) \<and>
      (st ''sr_admin_logged'' = None \<longrightarrow>
         \<not> shows_panel (Admin_effect (fst (snd (login (ad, st)))) Admin)))"
proof -
  have stored: "loadFromStorage ''sr_admin_logged'' (JBool False)
      (saveToStorage ''sr_admin_logged'' (JBool True) st) = JBool True"
    by (rule loadFromStorage_saveToStorage) simp
  have absent: "st ''sr_admin_logged'' = None \<Longrightarrow>
      loadFromStorage ''sr_admin_logged'' (JBool False) st = JBool False"
    by (simp add: loadFromStorage_def loadFromStorage_try_def)
  from stored absent show ?thesis
    by (simp add: login_def shows_panel_def truthy_def Admin_effect_def saveToStorage_def
        JSON_stringify_def)
qed

theorem admin_login_witness:
  "pw (Admin\<lparr>pw := ''Unbrella01''\<rparr>) = DEFAULT_ADMIN_PASSWORD \<and>
   login (Admin\<lparr>pw := ''Unbrella01''\<rparr>, Map.empty)
     = (Admin\<lparr>loggedIn := JBool True\<rparr>, [''sr_admin_logged'' \<mapsto> ''true''], None) \<and>
   shows_panel (Admin\<lparr>loggedIn := JBool True\<rparr>) \<and>
   shows_panel (Admin_effect [''sr_admin_logged'' \<mapsto> ''true''] Admin) \<and>
   pw (Admin\<lparr>pw := ''letmein''\<rparr>) \<noteq> DEFAULT_ADMIN_PASSWORD \<and>
   fst (login (Admin\<lparr>pw := ''letmein''\<rparr>, Map.empty)) = Admin\<lparr>pw := ''letmein''\<rparr> \<and>
   fst (snd (login (Admin\<lparr>pw := ''letmein''\<rparr>, Map.empty))) = Map.empty \<and>
   \<not> shows_panel (fst (login (Admin\<lparr>pw := ''letmein''\<rparr>, Map.empty))) \<and>
   \<not> shows_panel (Admin_effect Map.empty Admin)"
  using admin_login [of "Admin\<lparr>pw := ''Unbrella01''\<rparr>" Map.empty]
    admin_login [of "Admin\<lparr>pw := ''letmein''\<rparr>" Map.empty]
  by (auto simp: DEFAULT_ADMIN_PASSWORD_def Admin_def login_def shows_panel_def truthy_def
      saveToStorage_def JSON_stringify_def)

section \<open>The views\<close>

lemma map_throw_Inr: "map_throw (\<lambda>x. Inr (g x)) xs = Inr (map g xs)"
  by (induction xs) simp_all

text \<open>
  Claim C9. New entries go to the end of their collection. With \<open>g\<close> the element of
  the page built for an entry, \<open>Home\<close> and \<open>FilesPage\<close> show the entries of their
  collection in that order, first to last, and the two lists of the admin panel show
  them last to first; whatever is built for an entry, every array that was in the heap
  before the panel was drawn still has the elements it had, in the order it had them.
\<close>

theorem display_order:
  assumes "r < next h" "cells h r = xs"
  shows "Home (\<lambda>x. Inr (g x)) r h =
           Inr (if xs = [] then Placeholder ''No announcements yet.'' else Items (map g xs)) \<and>
         FilesPage (\<lambda>x. Inr (g x)) r h =
           Inr (if xs = [] then Placeholder ''No files uploaded yet.'' else Items (map g xs)) \<and>
         fst (Admin_messages (\<lambda>x. Inr (g x)) r h) =
           Inr (if xs = [] then Placeholder ''No messages yet.'' else Items (map g (rev xs))) \<and>
         fst (Admin_resources (\<lambda>x. Inr (g x)) r h) = Inr (Items (map g (rev xs))) \<and>
         (\<forall>li. \<forall>r' < next h.
            cells (snd (Admin_messages li r h)) r' = cells h r' \<and>
            cells (snd (Admin_resources li r h)) r' = cells h r') \<and>
         map_sum id fst (handleSendMessage x (a\<lparr>messages := JArr xs\<rparr>, st))
           = Inr (a\<lparr>messages := JArr (xs @ [x])\<rparr>) \<and>
         map_sum id fst (handlePostInfo ''resource'' x (a\<lparr>resources := JArr xs\<rparr>, st))
           = Inr (a\<lparr>resources := JArr (xs @ [x])\<rparr>) \<and>
         map_sum id fst (handlePostInfo ''info'' x (a\<lparr>infos := JArr xs\<rparr>, st))
           = Inr (a\<lparr>infos := JArr (xs @ [x])\<rparr>)"
  using assms
  by (auto simp: Home_def FilesPage_def Admin_messages_def Admin_resources_def Array_map_def
      Array_slice_def Array_reverse_def map_throw_Inr rev_map handleSendMessage_def
      handlePostInfo_def spread_append_def)

theorem display_order_witness:
  "0 < next heap1 \<and> cells heap1 0 = [info1, res1, msg1] \<and>
   Home (\<lambda>x. Inr x) 0 heap1 = Inr (Items [info1, res1, msg1]) \<and>
   FilesPage (\<lambda>x. Inr x) 0 heap1 = Inr (Items [info1, res1, msg1]) \<and>
   fst (Admin_messages (\<lambda>x. Inr x) 0 heap1) = Inr (Items [msg1, res1, info1]) \<and>
   fst (Admin_resources (\<lambda>x. Inr x) 0 heap1) = Inr (Items [msg1, res1, info1]) \<and>
   cells (snd (Admin_messages (\<lambda>x. Inr x) 0 heap1)) 0 = [info1, res1, msg1] \<and>
   cells (snd (Admin_resources (\<lambda>x. Inr x) 0 heap1)) 0 = [info1, res1, msg1] \<and>
   map_sum id fst (handlePostInfo ''info'' info1 (portal\<lparr>infos := JArr [info1, res1, msg1]\<rparr>, Map.empty))
     = Inr (portal\<lparr>infos := JArr [info1, res1, msg1, info1]\<rparr>)"
proof -
  have h: "0 < next heap1" "cells heap1 0 = [info1, res1, msg1]"
    by (simp_all add: heap1_def)
  note shown = display_order [OF h, of "\<lambda>x. x" info1 portal Map.empty]
  have a: "Home (\<lambda>x. Inr x) 0 heap1 = Inr (Items [info1, res1, msg1])"
    using shown by (elim conjE) simp
  have b: "FilesPage (\<lambda>x. Inr x) 0 heap1 = Inr (Items [info1, res1, msg1])"
    using shown by (elim conjE) simp
  have c: "fst (Admin_messages (\<lambda>x. Inr x) 0 heap1) = Inr (Items [msg1, res1, info1])"
    using shown by (elim conjE) simp
  have d: "fst (Admin_resources (\<lambda>x. Inr x) 0 heap1) = Inr (Items [msg1, res1, info1])"
    using shown by (elim conjE) simp
  have "\<forall>li. \<forall>r' < next heap1. cells (snd (Admin_messages li 0 heap1)) r' = cells heap1 r' \<and>
      cells (snd (Admin_resources li 0 heap1)) r' = cells heap1 r'"
    using shown by (elim conjE)
  with h have e: "cells (snd (Admin_messages (\<lambda>x. Inr x) 0 heap1)) 0 = [info1, res1, msg1]"
    "cells (snd (Admin_resources (\<lambda>x. Inr x) 0 heap1)) 0 = [info1, res1, msg1]"
    by metis+
  have f: "map_sum id fst
      (handlePostInfo ''info'' info1 (portal\<lparr>infos := JArr [info1, res1, msg1]\<rparr>, Map.empty))
     = Inr (portal\<lparr>infos := JArr [info1, res1, msg1, info1]\<rparr>)"
    using shown by (elim conjE) simp
  show ?thesis
    by (intro conjI) (fact h a b c d e f)+
qed

section \<open>Export and import\<close>











end
